theory Spec2Isabelle
  imports Main "HOL-Library.Monad_Syntax"
begin

section \<open>The digit store of \<open>UInt\<close>\<close>

text \<open>
  \<open>struct UInt\<close> has one field, \<open>std::vector<int64_t> digits\<close>, least significant digit
  first. A value of the struct is modelled by its digit vector. The static constants are
  \<open>BASE = 1e9\<close> and \<open>WIDTH = 9\<close>. Digits and native scalars are \<open>int64_t\<close>; they are
  modelled as unbounded integers. For digits in \<open>[0, BASE)\<close> the intermediate values of the
  loops stay below \<open>BASE * BASE + 2 * BASE\<close>, inside the 64-bit range; the one loop that can
  leave the range for such digits, in \<open>operator%(const UInt&, int64_t)\<close>, checks it.

  An \<open>assert\<close> that fails aborts the program; an operation that aborts, or whose behaviour
  is undefined (\<open>back()\<close> of an empty vector, integer division by zero), returns \<open>None\<close>.
\<close>

type_synonym UInt = "int list"

definition BASE :: int where
  "BASE = 1000000000"

definition WIDTH :: nat where
  "WIDTH = 9"

text \<open>Integer division and remainder of C++ truncate towards zero.\<close>

definition cdiv :: "int \<Rightarrow> int \<Rightarrow> int" where
  "cdiv a b = (if (a < 0) = (b < 0) then \<bar>a\<bar> div \<bar>b\<bar> else - (\<bar>a\<bar> div \<bar>b\<bar>))"

definition cmod :: "int \<Rightarrow> int \<Rightarrow> int" where
  "cmod a b = a - b * cdiv a b"

text \<open>The numeric value of a digit vector.\<close>

fun dval :: "int list \<Rightarrow> int" where
  "dval [] = 0"
| "dval (d # ds) = d + BASE * dval ds"

text \<open>
  The representation invariant of the data model: the vector is not empty, every digit
  lies in \<open>[0, BASE)\<close>, and the most significant digit is not zero unless the vector is the
  single digit \<open>0\<close>.
\<close>

definition digits_ok :: "int list \<Rightarrow> bool" where
  "digits_ok ds = list_all (\<lambda>d. 0 \<le> d \<and> d < BASE) ds"

definition uint_inv :: "UInt \<Rightarrow> bool" where
  "uint_inv ds = (ds \<noteq> [] \<and> digits_ok ds \<and> (1 < length ds \<longrightarrow> last ds \<noteq> 0))"

text \<open>
  \<open>UInt::normalize\<close>: the \<open>while\<close> loop pops most significant zero digits while more than
  one digit is left, then every digit is asserted to lie in \<open>[0, BASE)\<close>.
\<close>

function trim :: "int list \<Rightarrow> int list" where
  "trim ds = (if last ds = 0 \<and> 1 < length ds then trim (butlast ds) else ds)"
  by pat_completeness auto
termination
  by (relation "measure length") auto

declare trim.simps [simp del]

definition uint_normalize :: "int list \<Rightarrow> UInt option" where
  "uint_normalize ds =
     (if ds = [] then None
      else let t = trim ds in if digits_ok t then Some t else None)"

text \<open>\<open>UInt::UInt(int64_t)\<close>: the \<open>do ... while (number > 0)\<close> loop, then \<open>normalize\<close>.\<close>

function int_digits :: "int \<Rightarrow> int list" where
  "int_digits number =
     cmod number BASE #
       (if 0 < cdiv number BASE then int_digits (cdiv number BASE) else [])"
  by pat_completeness auto
termination
proof (relation "measure nat")
  fix number :: int
  assume h: "0 < cdiv number BASE"
  have "0 < number"
    using h by (auto simp: cdiv_def BASE_def split: if_splits)
  moreover have "cdiv number BASE < number"
    using \<open>0 < number\<close> by (simp add: cdiv_def BASE_def)
  ultimately show "(cdiv number BASE, number) \<in> measure nat"
    by simp
qed simp

declare int_digits.simps [simp del]

definition UInt_of_int :: "int \<Rightarrow> UInt option" where
  "UInt_of_int number = (if number < 0 then None else uint_normalize (int_digits number))"

text \<open>\<open>UInt::UInt(const std::vector<int64_t>&)\<close>: copies the digits and normalizes.\<close>

definition UInt_of_vector :: "int list \<Rightarrow> UInt option" where
  "UInt_of_vector ds = uint_normalize ds"

section \<open>Comparison\<close>

text \<open>
  \<open>UInt::compare\<close>: the longer vector is greater; vectors of equal length are compared
  digit by digit from the most significant one. \<open>compare_from\<close> is the \<open>for\<close> loop, run on
  the two vectors reversed.
\<close>

fun compare_from :: "int list \<Rightarrow> int list \<Rightarrow> int" where
  "compare_from (x # xs) (y # ys) =
     (if x > y then 1 else if x < y then -1 else compare_from xs ys)"
| "compare_from _ _ = 0"

definition compare :: "UInt \<Rightarrow> UInt \<Rightarrow> int" where
  "compare a b =
     (if length a > length b then 1
      else if length a < length b then -1
      else compare_from (rev a) (rev b))"

definition uint_less :: "UInt \<Rightarrow> UInt \<Rightarrow> bool" where
  "uint_less a b = (compare a b < 0)"

definition uint_greater :: "UInt \<Rightarrow> UInt \<Rightarrow> bool" where
  "uint_greater a b = (compare a b > 0)"

definition uint_eq :: "UInt \<Rightarrow> UInt \<Rightarrow> bool" where
  "uint_eq a b = (compare a b = 0)"

definition uint_le :: "UInt \<Rightarrow> UInt \<Rightarrow> bool" where
  "uint_le a b = (compare a b \<le> 0)"

definition uint_ge :: "UInt \<Rightarrow> UInt \<Rightarrow> bool" where
  "uint_ge a b = (compare a b \<ge> 0)"

definition uint_neq :: "UInt \<Rightarrow> UInt \<Rightarrow> bool" where
  "uint_neq a b = (compare a b \<noteq> 0)"

section \<open>Decimal text\<close>

text \<open>
  \<open>std::stoi\<close> in base 10: leading white space is skipped, a sign is accepted, the longest
  run of digits is converted; without a digit it throws \<open>std::invalid_argument\<close>, and a
  value outside the range of \<open>int\<close> throws \<open>std::out_of_range\<close>. No exception is caught
  in the program, so both give \<open>None\<close>.
\<close>

definition is_space :: "char \<Rightarrow> bool" where
  "is_space c = (c \<in> set [CHR '' '', CHR 0x09, CHR 0x0A, CHR 0x0B, CHR 0x0C, CHR 0x0D])"

definition is_digit :: "char \<Rightarrow> bool" where
  "is_digit c = (48 \<le> (of_char c :: int) \<and> (of_char c :: int) \<le> 57)"

definition digit_of :: "char \<Rightarrow> int" where
  "digit_of c = of_char c - 48"

definition dec_val :: "string \<Rightarrow> int" where
  "dec_val ds = foldl (\<lambda>acc c. 10 * acc + digit_of c) 0 ds"

definition stoi :: "string \<Rightarrow> int option" where
  "stoi s =
     (let t = dropWhile is_space s;
          neg = (t \<noteq> [] \<and> hd t = CHR ''-'');
          u = (if t \<noteq> [] \<and> (hd t = CHR ''-'' \<or> hd t = CHR ''+'') then tl t else t);
          ds = takeWhile is_digit u
      in if ds = [] then None
         else let v = (if neg then - dec_val ds else dec_val ds)
              in if - (2 ^ 31) \<le> v \<and> v < 2 ^ 31 then Some v else None)"

text \<open>
  \<open>UInt::UInt(const std::string&)\<close>: the groups of \<open>WIDTH\<close> characters from the end of the
  string, then the shorter leading group if there is one, then \<open>normalize\<close>.
  \<open>s.substr(pos, n)\<close> is \<open>take n (drop pos s)\<close>.
\<close>

definition UInt_of_string :: "string \<Rightarrow> UInt option" where
  "UInt_of_string s =
     (let size = length s;
          nGroups = size div WIDTH;
          groups = map (\<lambda>idGroup. stoi (take WIDTH (drop (size - idGroup * WIDTH) s)))
                     [1..<Suc nGroups];
          top = (if size mod WIDTH \<noteq> 0 then [stoi (take (size mod WIDTH) s)] else [])
      in case those (groups @ top) of
           None \<Rightarrow> None
         | Some digits \<Rightarrow> uint_normalize digits)"

text \<open>
  \<open>operator<<(std::ostream&, const UInt&)\<close>: the most significant digit as it is, every
  other digit with \<open>setw(WIDTH)\<close> and \<open>setfill('0')\<close>. \<open>show_int\<close> is the decimal output of
  an \<open>int64_t\<close>; \<open>setw0\<close> fills on the left up to the width and never cuts.
\<close>

function show_digits :: "int \<Rightarrow> string" where
  "show_digits n =
     (if n < 10 then [char_of (48 + n)]
      else show_digits (n div 10) @ [char_of (48 + n mod 10)])"
  by pat_completeness auto
termination
  by (relation "measure nat") auto

declare show_digits.simps [simp del]

definition show_int :: "int \<Rightarrow> string" where
  "show_int i = (if i < 0 then CHR ''-'' # show_digits (- i) else show_digits i)"

definition setw0 :: "nat \<Rightarrow> string \<Rightarrow> string" where
  "setw0 w s = replicate (w - length s) (CHR ''0'') @ s"

definition uint_format :: "UInt \<Rightarrow> string option" where
  "uint_format number =
     (if number = [] then None
      else Some (show_int (last number)
             @ concat (map (\<lambda>d. setw0 WIDTH (show_int d)) (rev (butlast number)))))"

text \<open>A decimal string without leading zeros.\<close>

definition valid_decimal :: "string \<Rightarrow> bool" where
  "valid_decimal s = (s \<noteq> [] \<and> list_all is_digit s \<and> (s = ''0'' \<or> hd s \<noteq> CHR ''0''))"

section \<open>Basic facts about digits and values\<close>

text \<open>
  These facts and the facts about \<open>UInt(int64_t)\<close> stand before the operators, because the
  operators on a scalar and on a long number call each other and the termination proofs
  need them: a scalar of at least \<open>BASE\<close> is converted to a vector of at least two digits.
\<close>

lemma BASE_pos: "0 < BASE"
  by (simp add: BASE_def)

lemma BASE_gt1: "1 < BASE"
  by (simp add: BASE_def)

lemma cdiv_nonneg: "0 \<le> a \<Longrightarrow> 0 < b \<Longrightarrow> cdiv a b = a div b"
  by (simp add: cdiv_def)

lemma cmod_nonneg: "0 \<le> a \<Longrightarrow> 0 < b \<Longrightarrow> cmod a b = a mod b"
  by (simp add: cmod_def cdiv_def minus_mult_div_eq_mod)

lemma digits_ok_Nil: "digits_ok []"
  by (simp add: digits_ok_def)

lemma digits_ok_Cons: "digits_ok (d # ds) = (0 \<le> d \<and> d < BASE \<and> digits_ok ds)"
  by (simp add: digits_ok_def)

lemma digits_ok_append: "digits_ok (xs @ ys) = (digits_ok xs \<and> digits_ok ys)"
  by (simp add: digits_ok_def)

lemma digits_ok_butlast: "digits_ok ds \<Longrightarrow> digits_ok (butlast ds)"
  by (induction ds) (auto simp: digits_ok_Cons digits_ok_Nil)

lemma digits_ok_rev: "digits_ok (rev ds) = digits_ok ds"
  by (simp add: digits_ok_def)

lemma digits_ok_last: "digits_ok ds \<Longrightarrow> ds \<noteq> [] \<Longrightarrow> 0 \<le> last ds \<and> last ds < BASE"
  by (induction ds) (auto simp: digits_ok_Cons)

lemma digits_ok_replicate0: "digits_ok (replicate n 0)"
  by (simp add: digits_ok_def list_all_length BASE_pos)

lemma dval_append: "dval (xs @ ys) = dval xs + BASE ^ length xs * dval ys"
  by (induction xs) (simp_all add: algebra_simps)

lemma dval_replicate0: "dval (replicate n 0) = 0"
  by (induction n) simp_all

lemma dval_nonneg: "digits_ok ds \<Longrightarrow> 0 \<le> dval ds"
  using BASE_pos by (induction ds) (auto simp: digits_ok_Cons)

lemma dval_upper: "digits_ok ds \<Longrightarrow> dval ds < BASE ^ length ds"
proof (induction ds)
  case Nil
  show ?case by simp
next
  case (Cons d ds)
  then have d: "d \<le> BASE - 1" and r: "dval ds \<le> BASE ^ length ds - 1"
    by (auto simp: digits_ok_Cons)
  have "BASE * dval ds \<le> BASE * (BASE ^ length ds - 1)"
    using r BASE_pos by (simp add: mult_left_mono)
  then show ?case
    using d by (simp add: algebra_simps)
qed

lemma dval_lower:
  assumes "digits_ok ds" "ds \<noteq> []" "last ds \<noteq> 0"
  shows "BASE ^ (length ds - 1) \<le> dval ds"
proof -
  have ds: "ds = butlast ds @ [last ds]"
    using assms(2) by simp
  have l: "1 \<le> last ds"
    using digits_ok_last [OF assms(1,2)] assms(3) by simp
  have "dval ds = dval (butlast ds) + BASE ^ (length ds - 1) * last ds"
    by (subst ds, subst dval_append) simp
  moreover have "0 \<le> dval (butlast ds)"
    by (rule dval_nonneg [OF digits_ok_butlast [OF assms(1)]])
  moreover have "BASE ^ (length ds - 1) * 1 \<le> BASE ^ (length ds - 1) * last ds"
    using l BASE_pos by (intro mult_left_mono) simp_all
  ultimately show ?thesis by simp
qed

lemma dval_snoc0: "dval (xs @ [0]) = dval xs"
  by (simp add: dval_append)

lemma dval_butlast0: "ds \<noteq> [] \<Longrightarrow> last ds = 0 \<Longrightarrow> dval (butlast ds) = dval ds"
  using dval_snoc0 [of "butlast ds"] by (metis append_butlast_last_id)

lemma trim_nonempty: "ds \<noteq> [] \<Longrightarrow> trim ds \<noteq> []"
proof (induction ds rule: trim.induct)
  case (1 ds)
  show ?case
  proof (cases "last ds = 0 \<and> 1 < length ds")
    case True
    then have "butlast ds \<noteq> []"
      by (cases ds) auto
    with 1 True show ?thesis
      by (subst trim.simps) simp
  next
    case False
    with 1 show ?thesis
      by (subst trim.simps) auto
  qed
qed

lemma dval_trim: "dval (trim ds) = dval ds"
proof (induction ds rule: trim.induct)
  case (1 ds)
  show ?case
  proof (cases "last ds = 0 \<and> 1 < length ds")
    case True
    then have "dval (butlast ds) = dval ds"
      by (intro dval_butlast0) auto
    with 1 True show ?thesis
      by (subst trim.simps) simp
  next
    case False
    then show ?thesis
      by (subst trim.simps) auto
  qed
qed

lemma digits_ok_trim: "digits_ok (trim ds) = digits_ok ds"
proof (induction ds rule: trim.induct)
  case (1 ds)
  show ?case
  proof (cases "last ds = 0 \<and> 1 < length ds")
    case True
    then have ne: "ds \<noteq> []" by auto
    have "digits_ok ds = digits_ok (butlast ds @ [last ds])"
      using ne by simp
    also have "\<dots> = digits_ok (butlast ds)"
      using True BASE_pos by (simp add: digits_ok_append digits_ok_Cons digits_ok_Nil)
    finally show ?thesis
      using 1 True by (subst trim.simps) simp
  next
    case False
    then show ?thesis
      by (subst trim.simps) auto
  qed
qed

lemma trim_last: "1 < length (trim ds) \<Longrightarrow> last (trim ds) \<noteq> 0"
proof (induction ds rule: trim.induct)
  case (1 ds)
  show ?case
  proof (cases "last ds = 0 \<and> 1 < length ds")
    case True
    with 1 show ?thesis
      by (subst trim.simps) (simp add: trim.simps [of ds])
  next
    case False
    with 1 show ?thesis
      by (subst trim.simps) (auto simp: trim.simps [of ds])
  qed
qed

lemma length_trim: "length (trim ds) \<le> length ds"
proof (induction ds rule: trim.induct)
  case (1 ds)
  show ?case
  proof (cases "last ds = 0 \<and> 1 < length ds")
    case True
    with 1 show ?thesis
      by (subst trim.simps) (simp add: le_diff_conv)
  next
    case False
    then show ?thesis
      by (subst trim.simps) auto
  qed
qed

lemma trim_id: "1 < length ds \<longrightarrow> last ds \<noteq> 0 \<Longrightarrow> trim ds = ds"
  by (subst trim.simps) auto

lemma normalize_Some:
  assumes "uint_normalize ds = Some u"
  shows "u = trim ds" "uint_inv u" "dval u = dval ds"
proof -
  from assms have ne: "ds \<noteq> []" and u: "u = trim ds" and ok: "digits_ok (trim ds)"
    by (auto simp: uint_normalize_def Let_def split: if_splits)
  show "u = trim ds" by (rule u)
  show "uint_inv u"
    using ne ok trim_last [of ds] by (simp add: uint_inv_def u trim_nonempty)
  show "dval u = dval ds"
    by (simp add: u dval_trim)
qed

lemma normalize_ok:
  "ds \<noteq> [] \<Longrightarrow> digits_ok ds \<Longrightarrow> uint_normalize ds = Some (trim ds)"
  by (simp add: uint_normalize_def digits_ok_trim)

lemma normalize_total:
  assumes "ds \<noteq> []" "digits_ok ds"
  shows "\<exists>u. uint_normalize ds = Some u \<and> uint_inv u \<and> dval u = dval ds \<and> length u \<le> length ds"
  using normalize_ok [OF assms] normalize_Some [of ds "trim ds"] length_trim [of ds]
  by simp

lemma normalize_inv: "uint_inv ds \<Longrightarrow> uint_normalize ds = Some ds"
  by (simp add: uint_normalize_def uint_inv_def trim_id)

lemma uint_inv_single: "uint_inv [d] = (0 \<le> d \<and> d < BASE)"
  by (auto simp: uint_inv_def digits_ok_Cons digits_ok_Nil)

lemma uint_inv_nonneg: "uint_inv a \<Longrightarrow> 0 \<le> dval a"
  by (simp add: uint_inv_def dval_nonneg)

lemma uint_inv_lower: "uint_inv a \<Longrightarrow> 1 < length a \<Longrightarrow> BASE ^ (length a - 1) \<le> dval a"
  using dval_lower [of a] by (simp add: uint_inv_def)

lemma uint_inv_upper: "uint_inv a \<Longrightarrow> dval a < BASE ^ length a"
  by (simp add: uint_inv_def dval_upper)

lemma uint_inv_length_less:
  assumes "uint_inv a" "uint_inv b" "length a < length b"
  shows "dval a < dval b"
proof -
  have "1 < length b"
    using assms by (cases a) (auto simp: uint_inv_def)
  then have "BASE ^ (length b - 1) \<le> dval b"
    by (rule uint_inv_lower [OF assms(2)])
  moreover have "BASE ^ length a \<le> BASE ^ (length b - 1)"
    using assms(3) BASE_gt1 by (intro power_increasing) simp_all
  ultimately show ?thesis
    using uint_inv_upper [OF assms(1)] by linarith
qed

lemma digits_eq_of_dval:
  "length xs = length ys \<Longrightarrow> digits_ok xs \<Longrightarrow> digits_ok ys \<Longrightarrow> dval xs = dval ys \<Longrightarrow> xs = ys"
proof (induction xs ys rule: list_induct2)
  case Nil
  show ?case by simp
next
  case (Cons x xs y ys)
  then have b: "0 \<le> x" "x < BASE" "0 \<le> y" "y < BASE"
    and e: "x + BASE * dval xs = y + BASE * dval ys"
    by (auto simp: digits_ok_Cons)
  have "(x + BASE * dval xs) mod BASE = (y + BASE * dval ys) mod BASE"
    using e by simp
  then have xy: "x = y"
    using b by simp
  with e BASE_pos have "dval xs = dval ys"
    by simp
  with Cons xy show ?case
    by (simp add: digits_ok_Cons)
qed

lemma uint_inv_inject:
  assumes "uint_inv a" "uint_inv b" "dval a = dval b"
  shows "a = b"
proof -
  have "length a = length b"
    using uint_inv_length_less [OF assms(1,2)] uint_inv_length_less [OF assms(2,1)] assms(3)
    by (cases "length a" "length b" rule: linorder_cases) auto
  then show ?thesis
    using assms by (auto simp: uint_inv_def intro: digits_eq_of_dval)
qed

section \<open>Construction from a native integer\<close>

lemma int_digits_props:
  "0 \<le> n \<Longrightarrow> digits_ok (int_digits n) \<and> dval (int_digits n) = n
     \<and> int_digits n \<noteq> [] \<and> (0 < n \<longrightarrow> last (int_digits n) \<noteq> 0)"
proof (induction n rule: int_digits.induct)
  case (1 n)
  have dv: "cdiv n BASE = n div BASE" and md: "cmod n BASE = n mod BASE"
    using 1(2) BASE_pos by (simp_all add: cdiv_nonneg cmod_nonneg)
  have m: "0 \<le> n mod BASE" "n mod BASE < BASE"
    using BASE_pos by simp_all
  show ?case
  proof (cases "0 < n div BASE")
    case True
    have eq: "int_digits n = n mod BASE # int_digits (n div BASE)"
      using True by (subst int_digits.simps) (simp add: dv md)
    have ih: "digits_ok (int_digits (n div BASE))" "dval (int_digits (n div BASE)) = n div BASE"
      "int_digits (n div BASE) \<noteq> []" "last (int_digits (n div BASE)) \<noteq> 0"
      using 1(1) True by (simp_all add: dv)
    show ?thesis
      using ih m by (simp add: eq digits_ok_Cons)
  next
    case False
    then have z: "n div BASE = 0"
      using 1(2) BASE_pos pos_imp_zdiv_nonneg_iff [of BASE n] by linarith
    have eq: "int_digits n = [n mod BASE]"
      using False by (subst int_digits.simps) (simp add: dv md)
    have "n mod BASE = n"
      using z minus_mult_div_eq_mod [of n BASE] by simp
    then show ?thesis
      using m by (simp add: eq digits_ok_Cons digits_ok_Nil)
  qed
qed

lemma int_digits_inv: "0 \<le> n \<Longrightarrow> uint_inv (int_digits n)"
proof -
  assume n: "0 \<le> n"
  show ?thesis
  proof (cases "n = 0")
    case True
    have "int_digits 0 = [0]"
      by (subst int_digits.simps) (simp add: cdiv_def cmod_def)
    then show ?thesis
      using True BASE_pos by (simp add: uint_inv_single)
  next
    case False
    then show ?thesis
      using int_digits_props [OF n] n by (simp add: uint_inv_def)
  qed
qed

lemma UInt_of_int_ok:
  assumes "0 \<le> n"
  shows "UInt_of_int n = Some (int_digits n)" "uint_inv (int_digits n)" "dval (int_digits n) = n"
  using assms int_digits_inv [OF assms] int_digits_props [OF assms]
  by (simp_all add: UInt_of_int_def normalize_inv)

lemma UInt_of_int_Some:
  assumes "UInt_of_int n = Some u"
  shows "0 \<le> n" "uint_inv u" "dval u = n"
proof -
  show n: "0 \<le> n"
    using assms by (simp add: UInt_of_int_def split: if_splits)
  show "uint_inv u" "dval u = n"
    using UInt_of_int_ok [OF n] assms by simp_all
qed

lemma uint_inv_length1: "uint_inv u \<Longrightarrow> dval u < BASE \<Longrightarrow> length u = 1"
proof (rule ccontr)
  assume u: "uint_inv u" and v: "dval u < BASE" and l: "length u \<noteq> 1"
  from u have "length u \<noteq> 0"
    by (simp add: uint_inv_def)
  with l have l2: "1 < length u"
    by linarith
  then have "BASE ^ 1 \<le> BASE ^ (length u - 1)"
    using BASE_gt1 by (intro power_increasing) simp_all
  with uint_inv_lower [OF u l2] v show False by simp
qed

lemma uint_inv_length2: "uint_inv u \<Longrightarrow> BASE \<le> dval u \<Longrightarrow> 2 \<le> length u"
proof (rule ccontr)
  assume u: "uint_inv u" and v: "BASE \<le> dval u" and l: "\<not> 2 \<le> length u"
  from u have "length u \<noteq> 0"
    by (simp add: uint_inv_def)
  with l have "length u = 1"
    by linarith
  with uint_inv_upper [OF u] v show False by simp
qed

lemma uint_inv_single_eq: "uint_inv u \<Longrightarrow> length u = 1 \<Longrightarrow> u = [dval u] \<and> u ! 0 = dval u"
  by (cases u) auto

lemma UInt_of_int_long: "UInt_of_int n = Some u \<Longrightarrow> BASE \<le> n \<Longrightarrow> 2 \<le> length u"
  using UInt_of_int_Some [of n u] uint_inv_length2 [of u] by simp

section \<open>Addition and subtraction\<close>

text \<open>
  The carry loop of \<open>UInt::operator+=(int64_t)\<close>, run on the digits from position \<open>i\<close> on:
  it stops as soon as \<open>rem\<close> is zero, and pushes a zero digit when it runs past the end.
\<close>

function add_short_loop :: "int \<Rightarrow> int list \<Rightarrow> int list" where
  "add_short_loop rem [] =
     (if rem > 0 then
        (if rem \<ge> BASE then (rem - BASE) # add_short_loop 1 [] else [rem])
      else [])"
| "add_short_loop rem (d # ds) =
     (if rem > 0 then
        (if rem + d \<ge> BASE then (rem + d - BASE) # add_short_loop 1 ds
         else (rem + d) # ds)
      else d # ds)"
  by pat_completeness auto
termination
  by (relation "measure (\<lambda>(rem, ds). 2 * length ds + (if rem \<ge> BASE then 1 else 0))")
    (auto simp: BASE_def)

text \<open>
  The loop of \<open>UInt::operator+=(const UInt&)\<close>: it runs while a digit of either operand
  or a carry is left.
\<close>

function add_long_loop :: "int \<Rightarrow> int list \<Rightarrow> int list \<Rightarrow> int list" where
  "add_long_loop rem a b =
     (if a \<noteq> [] \<or> b \<noteq> [] \<or> rem > 0 then
        (let d1 = (case a of [] \<Rightarrow> 0 | x # _ \<Rightarrow> x);
             d2 = (case b of [] \<Rightarrow> 0 | y # _ \<Rightarrow> y);
             r = rem + (d1 + d2);
             dv = cdiv r BASE
         in (r - dv * BASE) # add_long_loop dv (tl a) (tl b))
      else [])"
  by pat_completeness auto
termination
proof (relation "measures [\<lambda>(rem, a, b). length a + length b, \<lambda>(rem, a, b). nat rem]")
  fix rem :: int and a b :: "int list" and x xa xb xc
  assume h: "a \<noteq> [] \<or> b \<noteq> [] \<or> 0 < rem"
    and x: "x = (case a of [] \<Rightarrow> 0 | x # xa \<Rightarrow> x)"
    and xa: "xa = (case b of [] \<Rightarrow> 0 | y # xa \<Rightarrow> y)"
    and xb: "xb = rem + (x + xa)"
    and xc: "xc = cdiv xb BASE"
  show "((xc, tl a, tl b), rem, a, b)
      \<in> measures [\<lambda>(rem, a, b). length a + length b, \<lambda>(rem, a, b). nat rem]"
  proof (cases "a = [] \<and> b = []")
    case True
    with h have r: "0 < rem" by simp
    have "xb = rem"
      using True x xa xb by simp
    moreover have "rem div BASE < rem"
      using r BASE_gt1 by (simp add: int_div_less_self)
    ultimately show ?thesis
      using True r BASE_pos xc by (simp add: cdiv_nonneg)
  next
    case False
    then have "length (tl a) + length (tl b) < length a + length b"
      by (cases a; cases b) auto
    then show ?thesis by simp
  qed
qed simp

declare add_short_loop.simps [simp del] add_long_loop.simps [simp del]

text \<open>
  \<open>UInt::operator+=(int64_t)\<close> and \<open>UInt::operator+=(const UInt&)\<close> call each other: a
  scalar of at least \<open>BASE\<close> is converted and added as a long number, and a long number of
  one digit is added as a scalar.
\<close>

function add_short :: "UInt \<Rightarrow> int \<Rightarrow> UInt option"
  and add_long :: "UInt \<Rightarrow> UInt \<Rightarrow> UInt option" where
  "add_short a num =
     (if num < 0 then None
      else if num \<ge> BASE then
        (case UInt_of_int num of None \<Rightarrow> None | Some other \<Rightarrow> add_long a other)
      else uint_normalize (add_short_loop num a))"
| "add_long a other =
     (if length other = 1 then add_short a (other ! 0)
      else uint_normalize (add_long_loop 0 a other))"
  by pat_completeness auto
termination
proof (relation "measure (\<lambda>x. case x of
    Inl (a, num) \<Rightarrow> if num \<ge> BASE then 2 else 0
  | Inr (a, other) \<Rightarrow> if length other = 1 then 3 else (1::nat))")
  fix a :: UInt and num :: int and other :: UInt
  assume "BASE \<le> num" "UInt_of_int num = Some other"
  then have "length other \<noteq> 1"
    using UInt_of_int_long [of num other] by simp
  then show "(Inr (a, other), Inl (a, num)) \<in> measure (\<lambda>x. case x of
      Inl (a, num) \<Rightarrow> if num \<ge> BASE then 2 else 0
    | Inr (a, other) \<Rightarrow> if length other = 1 then 3 else (1::nat))"
    using \<open>BASE \<le> num\<close> by simp
qed simp_all

declare add_short.simps [simp del] add_long.simps [simp del]

text \<open>
  The borrow loop of \<open>UInt::operator-=(int64_t)\<close>; the result is the digits and the value
  of \<open>rem\<close> when the loop ends.
\<close>

fun sub_short_loop :: "int \<Rightarrow> int list \<Rightarrow> int list \<times> int" where
  "sub_short_loop rem [] = ([], rem)"
| "sub_short_loop rem (d # ds) =
     (if rem < 0 then
        (if rem + d < 0 then
           (case sub_short_loop (-1) ds of (r, c) \<Rightarrow> ((rem + d + BASE) # r, c))
         else ((rem + d) # ds, 0))
      else (d # ds, rem))"

text \<open>
  The loop of \<open>UInt::operator-=(const UInt&)\<close>; it leaves early once no borrow is pending
  and the digits of the subtrahend are used up.
\<close>

fun sub_long_loop :: "int \<Rightarrow> int list \<Rightarrow> int list \<Rightarrow> int list \<times> int" where
  "sub_long_loop rem [] b = ([], rem)"
| "sub_long_loop rem (d1 # a) b =
     (let d2 = (case b of [] \<Rightarrow> 0 | y # _ \<Rightarrow> y);
          r = rem + (d1 - d2)
      in if r < 0 then
           (case sub_long_loop (-1) a (tl b) of (ds, c) \<Rightarrow> ((r + BASE) # ds, c))
         else if b = [] then (r # a, 0)
         else (case sub_long_loop 0 a (tl b) of (ds, c) \<Rightarrow> (r # ds, c)))"

function sub_short :: "UInt \<Rightarrow> int \<Rightarrow> UInt option"
  and sub_long :: "UInt \<Rightarrow> UInt \<Rightarrow> UInt option" where
  "sub_short a num =
     (if num < 0 then None
      else if num \<ge> BASE then
        (case UInt_of_int num of None \<Rightarrow> None | Some other \<Rightarrow> sub_long a other)
      else (case sub_short_loop (- num) a of
              (ds, rem) \<Rightarrow> if rem \<noteq> 0 then None else uint_normalize ds))"
| "sub_long a other =
     (if length other = 1 then sub_short a (other ! 0)
      else if length a < length other then None
      else (case sub_long_loop 0 a other of
              (ds, rem) \<Rightarrow> if rem \<noteq> 0 then None else uint_normalize ds))"
  by pat_completeness auto
termination
proof (relation "measure (\<lambda>x. case x of
    Inl (a, num) \<Rightarrow> if num \<ge> BASE then 2 else 0
  | Inr (a, other) \<Rightarrow> if length other = 1 then 3 else (1::nat))")
  fix a :: UInt and num :: int and other :: UInt
  assume "BASE \<le> num" "UInt_of_int num = Some other"
  then have "length other \<noteq> 1"
    using UInt_of_int_long [of num other] by simp
  then show "(Inr (a, other), Inl (a, num)) \<in> measure (\<lambda>x. case x of
      Inl (a, num) \<Rightarrow> if num \<ge> BASE then 2 else 0
    | Inr (a, other) \<Rightarrow> if length other = 1 then 3 else (1::nat))"
    using \<open>BASE \<le> num\<close> by simp
qed simp_all

declare sub_short.simps [simp del] sub_long.simps [simp del]

text \<open>\<open>operator+\<close> and \<open>operator-\<close> on two long numbers copy the left operand.\<close>

definition uint_add :: "UInt \<Rightarrow> UInt \<Rightarrow> UInt option" where
  "uint_add a b = add_long a b"

definition uint_sub :: "UInt \<Rightarrow> UInt \<Rightarrow> UInt option" where
  "uint_sub a b = sub_long a b"

section \<open>Multiplication\<close>

text \<open>
  Two parts of the multiplier are computed in floating point and are parameters of the
  model. \<open>spectral_cost env pow\<close> is the value of the \<open>int64_t\<close> variable \<open>op2\<close> of
  \<open>UInt::mult\<close>, the truncated \<open>double\<close> expression \<open>3 * pow * std::log(pow) / std::log(2)\<close>.
  \<open>spectral_digits env a b\<close> is the vector \<open>res\<close> that \<open>UInt::fast_mult\<close> builds from the
  \<open>long double\<close> Fourier transforms of its operands (\<open>None\<close> when \<open>assert(temp[i] >= 0)\<close>
  fails).
\<close>

record float_env =
  spectral_cost :: "int \<Rightarrow> int"
  spectral_digits :: "int list \<Rightarrow> int list \<Rightarrow> int list option"

text \<open>The loop of \<open>UInt::operator*=(int64_t)\<close>, with the final \<open>push_back\<close> of the carry.\<close>

fun mul_short_loop :: "int \<Rightarrow> int \<Rightarrow> int list \<Rightarrow> int list" where
  "mul_short_loop num rem [] = (if rem > 0 then [rem] else [])"
| "mul_short_loop num rem (d # ds) =
     (let r = rem + 1 * d * num;
          dv = cdiv r BASE
      in (r - dv * BASE) # mul_short_loop num dv ds)"

text \<open>
  The two nested loops of \<open>UInt::slow_mult\<close>. \<open>mult_row\<close> is the inner loop for one digit
  \<open>di\<close> of the left operand, run on the part of \<open>temp\<close> from position \<open>i\<close> on, followed by
  the addition of the last carry to \<open>temp[i + s2]\<close>. \<open>mult_rows\<close> is the outer loop: row \<open>i\<close>
  leaves \<open>temp[i]\<close> final and the later rows work on the positions above it. \<open>temp\<close> has
  \<open>s1 + s2\<close> entries, so no row leaves the vector, and the equations for an exhausted \<open>temp\<close>
  are never used.
\<close>

fun mult_row :: "int \<Rightarrow> int \<Rightarrow> int list \<Rightarrow> int list \<Rightarrow> int list" where
  "mult_row di rem other [] = []"
| "mult_row di rem [] (t # ts) = (if rem > 0 then (t + rem) # ts else t # ts)"
| "mult_row di rem (oj # other) (t # ts) =
     (let r = rem + (t + 1 * di * oj);
          dv = cdiv r BASE
      in (r - dv * BASE) # mult_row di dv other ts)"

fun mult_rows :: "int list \<Rightarrow> int list \<Rightarrow> int list \<Rightarrow> int list" where
  "mult_rows [] other temp = temp"
| "mult_rows (di # a) other temp =
     (case mult_row di 0 other temp of
        [] \<Rightarrow> []
      | t # ts \<Rightarrow> t # mult_rows a other ts)"

text \<open>The loop \<open>while (pow < temp) pow *= 2\<close> of \<open>UInt::mult\<close>.\<close>

partial_function (option) pow2_loop :: "int \<Rightarrow> int \<Rightarrow> int option" where
  "pow2_loop pow temp = (if pow < temp then pow2_loop (pow * 2) temp else Some pow)"

declare pow2_loop.simps [code]

text \<open>
  \<open>UInt::operator*=(int64_t)\<close> (which is also \<open>operator*(const UInt&, int64_t)\<close>),
  \<open>UInt::slow_mult\<close>, \<open>UInt::fast_mult\<close> and \<open>UInt::mult\<close> (which is also
  \<open>operator*(const UInt&, const UInt&)\<close> and \<open>UInt::operator*=(const UInt&)\<close>) call each other.
\<close>

function mul_short :: "float_env \<Rightarrow> UInt \<Rightarrow> int \<Rightarrow> UInt option"
  and slow_mult :: "float_env \<Rightarrow> UInt \<Rightarrow> UInt \<Rightarrow> UInt option"
  and fast_mult :: "float_env \<Rightarrow> UInt \<Rightarrow> UInt \<Rightarrow> UInt option"
  and mult :: "float_env \<Rightarrow> UInt \<Rightarrow> UInt \<Rightarrow> UInt option" where
  "mul_short env a num =
     (if num < 0 then None
      else if num \<ge> BASE then
        (case UInt_of_int num of None \<Rightarrow> None | Some other \<Rightarrow> mult env a other)
      else uint_normalize (mul_short_loop num 0 a))"
| "slow_mult env a other =
     (if length other = 1 then mul_short env a (other ! 0)
      else UInt_of_vector (mult_rows a other (replicate (length a + length other) 0)))"
| "fast_mult env a other =
     (if length other = 1 then mul_short env a (other ! 0)
      else (case spectral_digits env a other of
              None \<Rightarrow> None
            | Some res \<Rightarrow> UInt_of_vector res))"
| "mult env a other =
     (let len1 = int (length a);
          len2 = int (length other);
          temp = 3 * max len1 len2
      in case pow2_loop 1 temp of
           None \<Rightarrow> None
         | Some p \<Rightarrow>
             (let pow = p * 2;
                  op1 = len1 * len2;
                  op2 = spectral_cost env pow
              in if op1 \<ge> 15 * op2 then fast_mult env a other else slow_mult env a other))"
  by pat_completeness auto
termination
proof (relation "measure (\<lambda>x. case x of
    Inl (Inl (env, a, num)) \<Rightarrow> if num \<ge> BASE then 3 else 0
  | Inl (Inr (env, a, other)) \<Rightarrow> if length other = 1 then 4 else 1
  | Inr (Inl (env, a, other)) \<Rightarrow> if length other = 1 then 4 else 1
  | Inr (Inr (env, a, other)) \<Rightarrow> if length other = 1 then 5 else (2::nat))")
  fix env :: float_env and a :: UInt and num :: int and other :: UInt
  assume "BASE \<le> num" "UInt_of_int num = Some other"
  then have "length other \<noteq> 1"
    using UInt_of_int_long [of num other] by simp
  then show "(Inr (Inr (env, a, other)), Inl (Inl (env, a, num))) \<in> measure (\<lambda>x. case x of
      Inl (Inl (env, a, num)) \<Rightarrow> if num \<ge> BASE then 3 else 0
    | Inl (Inr (env, a, other)) \<Rightarrow> if length other = 1 then 4 else 1
    | Inr (Inl (env, a, other)) \<Rightarrow> if length other = 1 then 4 else 1
    | Inr (Inr (env, a, other)) \<Rightarrow> if length other = 1 then 5 else (2::nat))"
    using \<open>BASE \<le> num\<close> by simp
qed simp_all

declare mul_short.simps [simp del] slow_mult.simps [simp del] fast_mult.simps [simp del]
  mult.simps [simp del]

text \<open>
  The condition \<open>op1 >= 15 * op2\<close> of the conditional expression that ends \<open>UInt::mult\<close>,
  computed as \<open>UInt::mult\<close> computes it: \<open>Some True\<close> when \<open>fast_mult\<close> is called,
  \<open>Some False\<close> when \<open>slow_mult\<close> is called.
\<close>

definition mult_takes_fast :: "float_env \<Rightarrow> UInt \<Rightarrow> UInt \<Rightarrow> bool option" where
  "mult_takes_fast env a other =
     (let len1 = int (length a);
          len2 = int (length other);
          temp = 3 * max len1 len2
      in case pow2_loop 1 temp of
           None \<Rightarrow> None
         | Some p \<Rightarrow>
             (let pow = p * 2;
                  op1 = len1 * len2;
                  op2 = spectral_cost env pow
              in Some (op1 \<ge> 15 * op2)))"

section \<open>Division\<close>

text \<open>
  The loop of \<open>UInt::operator/=(int64_t)\<close>, run from the most significant digit down; the
  quotient digits come out most significant first.
\<close>

fun div_short_loop :: "int \<Rightarrow> int \<Rightarrow> int list \<Rightarrow> int list" where
  "div_short_loop num rem [] = []"
| "div_short_loop num rem (d # ds) =
     (let r = rem * BASE + d;
          dv = cdiv r num
      in dv # div_short_loop num (r - dv * num) ds)"

text \<open>
  \<open>operator%(const UInt&, int64_t)\<close>. The divisor is not limited to one digit here, so
  \<open>rem * BASE + digit\<close> can leave the range of \<open>int64_t\<close>; signed overflow is undefined
  behaviour and gives \<open>None\<close>.
\<close>

definition in_int64 :: "int \<Rightarrow> bool" where
  "in_int64 x = (- (2 ^ 63) \<le> x \<and> x < 2 ^ 63)"

fun mod_short_loop :: "int \<Rightarrow> int \<Rightarrow> int list \<Rightarrow> int option" where
  "mod_short_loop num rem [] = Some rem"
| "mod_short_loop num rem (d # ds) =
     (if in_int64 (rem * BASE) \<and> in_int64 (rem * BASE + d)
      then mod_short_loop num (cmod (rem * BASE + d) num) ds
      else None)"

definition mod_short :: "UInt \<Rightarrow> int \<Rightarrow> int option" where
  "mod_short a num = (if num \<le> 0 then None else mod_short_loop num 0 (rev a))"

text \<open>
  The correction loop \<open>while (r < temp) { r += b; --d; }\<close> of \<open>UInt::div_mod\<close>; it returns
  \<open>r\<close> and \<open>d\<close>.
\<close>

partial_function (option) correct_loop :: "UInt \<Rightarrow> UInt \<Rightarrow> UInt \<Rightarrow> int \<Rightarrow> (UInt \<times> int) option" where
  "correct_loop b temp r d =
     (if uint_less r temp then
        do { r' \<leftarrow> add_long r b; correct_loop b temp r' (d - 1) }
      else Some (r, d))"

declare correct_loop.simps [code]

text \<open>
  One round of the \<open>for\<close> loop of \<open>UInt::div_mod\<close> for the digit \<open>ai\<close> of the scaled
  dividend: it returns the new partial remainder and the quotient digit. A zero most
  significant digit of \<open>b\<close> would be a division by zero.
\<close>

definition div_step :: "float_env \<Rightarrow> UInt \<Rightarrow> UInt \<Rightarrow> int \<Rightarrow> (UInt \<times> int) option" where
  "div_step env b r ai =
     do {
       r1 \<leftarrow> mul_short env r BASE;
       r2 \<leftarrow> add_short r1 ai;
       let b_size = int (length b);
       let s1 = (if int (length r2) \<le> b_size then 0 else r2 ! nat b_size);
       let s2 = (if int (length r2) \<le> b_size - 1 then 0 else r2 ! nat (b_size - 1));
       if last b = 0 then None
       else do {
         let d = cdiv (1 * BASE * s1 + s2) (last b);
         temp \<leftarrow> mul_short env b d;
         (r3, d') \<leftarrow> correct_loop b temp r2 d;
         r4 \<leftarrow> sub_long r3 temp;
         Some (r4, d')
       }
     }"

text \<open>
  The \<open>for\<close> loop itself, over the digits of the scaled dividend from the most significant
  one down. \<open>q\<close> collects the quotient digits; the digit of position \<open>i\<close> is put in front
  of the digits of the positions above \<open>i\<close>.
\<close>

fun div_loop :: "float_env \<Rightarrow> UInt \<Rightarrow> UInt \<Rightarrow> int list \<Rightarrow> int list \<Rightarrow> (int list \<times> UInt) option" where
  "div_loop env b r q [] = Some (q, r)"
| "div_loop env b r q (ai # as) =
     (case div_step env b r ai of
        None \<Rightarrow> None
      | Some (r', d) \<Rightarrow> div_loop env b r' (d # q) as)"

text \<open>
  \<open>UInt::operator/=(int64_t)\<close> (also \<open>operator/(const UInt&, int64_t)\<close>) and \<open>UInt::div_mod\<close>
  call each other: a scalar divisor of at least \<open>BASE\<close> is converted and divides as a long
  number, a long divisor of one digit divides as a scalar, and the long division ends with
  the division of the remainder by the scalar \<open>norm\<close>.
\<close>

function div_short :: "float_env \<Rightarrow> UInt \<Rightarrow> int \<Rightarrow> UInt option"
  and div_mod :: "float_env \<Rightarrow> UInt \<Rightarrow> UInt \<Rightarrow> (UInt \<times> UInt) option" where
  "div_short env a num =
     (if num \<le> 0 then None
      else if num \<ge> BASE then
        (case UInt_of_int num of
           None \<Rightarrow> None
         | Some other \<Rightarrow> (case div_mod env a other of None \<Rightarrow> None | Some (q, r) \<Rightarrow> Some q))
      else uint_normalize (rev (div_short_loop num 0 (rev a))))"
| "div_mod env a other =
     (if length other = 1 then
        (case div_short env a (other ! 0) of
           None \<Rightarrow> None
         | Some q \<Rightarrow>
             (case mod_short a (other ! 0) of
                None \<Rightarrow> None
              | Some m \<Rightarrow> (case UInt_of_int m of None \<Rightarrow> None | Some r \<Rightarrow> Some (q, r))))
      else if other = [] \<or> last other + 1 = 0 then None
      else
        (let norm = cdiv BASE (last other + 1) in
         case mul_short env a norm of
           None \<Rightarrow> None
         | Some a' \<Rightarrow>
             (case mul_short env other norm of
                None \<Rightarrow> None
              | Some b \<Rightarrow>
                  (case div_loop env b [0] [] (rev a') of
                     None \<Rightarrow> None
                   | Some (q, r) \<Rightarrow>
                       (case uint_normalize q of
                          None \<Rightarrow> None
                        | Some q' \<Rightarrow>
                            (case div_short env r norm of
                               None \<Rightarrow> None
                             | Some r' \<Rightarrow> Some (q', r')))))))"
  by pat_completeness auto
termination
proof (relation "measure (\<lambda>x. case x of
    Inl (env, a, num) \<Rightarrow> if num \<ge> BASE then 3 else 0
  | Inr (env, a, other) \<Rightarrow>
      if length other = 1 then (if other ! 0 \<ge> BASE then 4 else 1)
      else if last other \<ge> 1 then 2 else (5::nat))")
  fix env :: float_env and a :: UInt and num :: int and other :: UInt
  assume h: "BASE \<le> num" "UInt_of_int num = Some other"
  have inv: "uint_inv other" and len: "2 \<le> length other"
    using UInt_of_int_Some [OF h(2)] UInt_of_int_long [OF h(2,1)] by simp_all
  then have "1 \<le> last other"
    using digits_ok_last [of other] by (auto simp: uint_inv_def)
  then show "(Inr (env, a, other), Inl (env, a, num)) \<in> measure (\<lambda>x. case x of
      Inl (env, a, num) \<Rightarrow> if num \<ge> BASE then 3 else 0
    | Inr (env, a, other) \<Rightarrow>
        if length other = 1 then (if other ! 0 \<ge> BASE then 4 else 1)
        else if last other \<ge> 1 then 2 else (5::nat))"
    using h(1) len by simp
next
  fix env :: float_env and a :: UInt and other :: UInt and x :: int and r :: UInt
  assume x: "x = cdiv BASE (last other + 1)"
  have "1 \<le> last other \<Longrightarrow> x < BASE"
  proof -
    assume l: "1 \<le> last other"
    have "x = BASE div (last other + 1)"
      using l BASE_pos by (simp add: x cdiv_nonneg)
    also have "\<dots> \<le> BASE div 2"
      using l BASE_pos by (intro zdiv_mono2) simp_all
    also have "\<dots> < BASE"
      by (simp add: BASE_def)
    finally show ?thesis .
  qed
  then show "length other \<noteq> 1 \<Longrightarrow> (Inl (env, r, x), Inr (env, a, other)) \<in> measure (\<lambda>x. case x of
      Inl (env, a, num) \<Rightarrow> if num \<ge> BASE then 3 else 0
    | Inr (env, a, other) \<Rightarrow>
        if length other = 1 then (if other ! 0 \<ge> BASE then 4 else 1)
        else if last other \<ge> 1 then 2 else (5::nat))"
    by auto
qed simp_all

declare div_short.simps [simp del] div_mod.simps [simp del]

text \<open>\<open>operator/\<close> and \<open>operator%\<close> on two long numbers are the two components of \<open>div_mod\<close>.\<close>

definition uint_div :: "float_env \<Rightarrow> UInt \<Rightarrow> UInt \<Rightarrow> UInt option" where
  "uint_div env a b = map_option fst (div_mod env a b)"

definition uint_mod :: "float_env \<Rightarrow> UInt \<Rightarrow> UInt \<Rightarrow> UInt option" where
  "uint_mod env a b = map_option snd (div_mod env a b)"

section \<open>Greatest common divisor and exponentiation\<close>

text \<open>
  \<open>gcd\<close>: the loop \<open>while (b != 0)\<close>; the literal \<open>0\<close> is converted by \<open>UInt(int64_t)\<close>.
\<close>

partial_function (option) uint_gcd :: "float_env \<Rightarrow> UInt \<Rightarrow> UInt \<Rightarrow> UInt option" where
  "uint_gcd env a b =
     do {
       zero \<leftarrow> UInt_of_int 0;
       if uint_neq b zero then
         do { rem \<leftarrow> uint_mod env a b; uint_gcd env b rem }
       else Some a
     }"

declare uint_gcd.simps [code]

text \<open>
  \<open>pow(UInt a, long long n, long long mod)\<close>. The two loops differ in the statement
  \<open>a %= mod\<close>, where \<open>mod\<close> is converted by \<open>UInt(int64_t)\<close>. \<open>res *= a\<close> and \<open>a *= a\<close> are
  \<open>UInt::operator*=(const UInt&)\<close>.
\<close>

function pow_plain_loop :: "float_env \<Rightarrow> UInt \<Rightarrow> UInt \<Rightarrow> int \<Rightarrow> UInt option" where
  "pow_plain_loop env res a n =
     (if n > 0 then
        (case (if cmod n 2 \<noteq> 0 then mult env res a else Some res) of
           None \<Rightarrow> None
         | Some res' \<Rightarrow>
             (case mult env a a of
                None \<Rightarrow> None
              | Some a' \<Rightarrow> pow_plain_loop env res' a' (cdiv n 2)))
      else Some res)"
  by pat_completeness auto
termination
  by (relation "measure (\<lambda>(env, res, a, n). nat n)") (auto simp: cdiv_def)

function pow_mod_loop :: "float_env \<Rightarrow> UInt \<Rightarrow> UInt \<Rightarrow> int \<Rightarrow> int \<Rightarrow> UInt option" where
  "pow_mod_loop env res a n modulus =
     (if n > 0 then
        (case (if cmod n 2 \<noteq> 0 then mult env res a else Some res) of
           None \<Rightarrow> None
         | Some res' \<Rightarrow>
             (case mult env a a of
                None \<Rightarrow> None
              | Some a' \<Rightarrow>
                  (case UInt_of_int modulus of
                     None \<Rightarrow> None
                   | Some m \<Rightarrow>
                       (case uint_mod env a' m of
                          None \<Rightarrow> None
                        | Some a'' \<Rightarrow> pow_mod_loop env res' a'' (cdiv n 2) modulus))))
      else Some res)"
  by pat_completeness auto
termination
  by (relation "measure (\<lambda>(env, res, a, n, modulus). nat n)") (auto simp: cdiv_def)

declare pow_plain_loop.simps [simp del] pow_mod_loop.simps [simp del]

definition pow :: "float_env \<Rightarrow> UInt \<Rightarrow> int \<Rightarrow> int \<Rightarrow> UInt option" where
  "pow env a n modulus =
     (case UInt_of_int 1 of
        None \<Rightarrow> None
      | Some res \<Rightarrow>
          if modulus = -1 then pow_plain_loop env res a n
          else pow_mod_loop env res a n modulus)"

section \<open>Addition and multiplication with a native scalar\<close>

text \<open>
  \<open>operator+(const UInt& a, const int64_t b)\<close> returns \<open>UInt(a) += b\<close>;
  \<open>operator+(const int64_t a, const UInt& b)\<close> returns \<open>b * a\<close>;
  \<open>operator*(const int64_t a, const UInt& b)\<close> returns \<open>b * a\<close>.
\<close>

definition uint_plus_scalar :: "UInt \<Rightarrow> int \<Rightarrow> UInt option" where
  "uint_plus_scalar a b = add_short a b"

definition scalar_plus_uint :: "float_env \<Rightarrow> int \<Rightarrow> UInt \<Rightarrow> UInt option" where
  "scalar_plus_uint env a b = mul_short env b a"

definition scalar_times_uint :: "float_env \<Rightarrow> int \<Rightarrow> UInt \<Rightarrow> UInt option" where
  "scalar_times_uint env a b = mul_short env b a"

section \<open>Assumptions on the floating-point parts\<close>

text \<open>
  Assumptions on the cost estimate \<open>op2\<close>, whose value over the reals at \<open>pow = 2 ^ k\<close> is
  \<open>3 * 2 ^ k * k\<close>. \<open>cost_sane\<close>: the truncated estimate of a power of two of at least 2 is
  not below that power. \<open>cost_near\<close>: for \<open>k\<close> from 1 to 46 the truncated estimate is the
  value over the reals or one less. (In IEEE binary64 arithmetic the quotient
  \<open>3 * pow * std::log(pow) / std::log(2)\<close> can fall just below the integer \<open>3 * 2 ^ k * k\<close>,
  and the conversion to \<open>int64_t\<close> truncates; for larger \<open>k\<close> the rounding error of the
  quotient can exceed 1.)
\<close>

definition cost_sane :: "float_env \<Rightarrow> bool" where
  "cost_sane env = (\<forall>k. 2 ^ Suc k \<le> spectral_cost env (2 ^ Suc k))"

definition cost_near :: "float_env \<Rightarrow> bool" where
  "cost_near env =
     (\<forall>k. 1 \<le> k \<and> k \<le> 46 \<longrightarrow>
        3 * 2 ^ k * int k - 1 \<le> spectral_cost env (2 ^ k)
          \<and> spectral_cost env (2 ^ k) \<le> 3 * 2 ^ k * int k)"

text \<open>The products of operands whose right operand has at most two digits are right.\<close>

definition short_mult_ok :: "float_env \<Rightarrow> bool" where
  "short_mult_ok env =
     (\<forall>a b. uint_inv a \<and> uint_inv b \<and> length b \<le> 2 \<longrightarrow>
        (\<exists>r. mult env a b = Some r \<and> uint_inv r \<and> dval r = dval a * dval b))"

section \<open>An environment without rounding error\<close>

text \<open>
  \<open>ilog2\<close> is the binary logarithm of a power of two. In \<open>exact_env\<close> the cost estimate is
  \<open>3 * pow * log2 pow\<close> and the transform pipeline yields digits of the exact product.
\<close>

function ilog2 :: "int \<Rightarrow> int" where
  "ilog2 p = (if p \<le> 1 then 0 else 1 + ilog2 (p div 2))"
  by pat_completeness auto
termination
  by (relation "measure nat") auto

declare ilog2.simps [simp del]

definition exact_env :: float_env where
  "exact_env =
     \<lparr> spectral_cost = (\<lambda>p. 3 * p * ilog2 p),
       spectral_digits = (\<lambda>a b. Some (mult_rows a b (replicate (length a + length b) 0))) \<rparr>"

section \<open>The cost estimate in binary64 arithmetic\<close>



section \<open>Auxiliary definitions\<close>

text \<open>The quotient digit estimated from the two leading digits, as in \<open>div_step\<close>.\<close>

definition quot_estimate :: "UInt \<Rightarrow> UInt \<Rightarrow> int" where
  "quot_estimate b r2 =
     (let b_size = int (length b);
          s1 = (if int (length r2) \<le> b_size then 0 else r2 ! nat b_size);
          s2 = (if int (length r2) \<le> b_size - 1 then 0 else r2 ! nat (b_size - 1))
      in cdiv (1 * BASE * s1 + s2) (last b))"

text \<open>The groups of nine characters that the constructor cuts from the end of the string.\<close>

definition groups_of :: "string \<Rightarrow> nat \<Rightarrow> string list" where
  "groups_of s g = map (\<lambda>idGroup. take 9 (drop (length s - idGroup * 9) s)) [1..<Suc g]"

section \<open>Correctness of the comparison\<close>

lemma compare_from_dval:
  "length xs = length ys \<Longrightarrow> digits_ok xs \<Longrightarrow> digits_ok ys \<Longrightarrow>
   compare_from xs ys =
     (if dval (rev xs) < dval (rev ys) then -1 else if dval (rev xs) = dval (rev ys) then 0 else 1)"
proof (induction xs ys rule: list_induct2)
  case Nil
  show ?case by simp
next
  case (Cons x xs y ys)
  let ?p = "BASE ^ length xs"
  have ok: "digits_ok (rev xs)" "digits_ok (rev ys)"
    using Cons.prems by (simp_all add: digits_ok_Cons digits_ok_rev)
  have bx: "0 \<le> dval (rev xs)" "dval (rev xs) < ?p"
    using dval_nonneg [OF ok(1)] dval_upper [OF ok(1)] by simp_all
  have "by": "0 \<le> dval (rev ys)" "dval (rev ys) < ?p"
    using dval_nonneg [OF ok(2)] dval_upper [OF ok(2)] Cons.hyps by simp_all
  have vx: "dval (rev (x # xs)) = dval (rev xs) + ?p * x"
    by (simp add: dval_append)
  have vy: "dval (rev (y # ys)) = dval (rev ys) + ?p * y"
    using Cons.hyps by (simp add: dval_append)
  consider "x > y" | "x < y" | "x = y" by linarith
  then show ?case
  proof cases
    case 1
    then have "?p * (y + 1) \<le> ?p * x"
      using BASE_pos by (intro mult_left_mono) simp_all
    then have "dval (rev (y # ys)) < dval (rev (x # xs))"
      using bx "by" unfolding vx vy by (simp add: algebra_simps)
    with 1 show ?thesis by simp
  next
    case 2
    then have "?p * (x + 1) \<le> ?p * y"
      using BASE_pos by (intro mult_left_mono) simp_all
    then have "dval (rev (x # xs)) < dval (rev (y # ys))"
      using bx "by" unfolding vx vy by (simp add: algebra_simps)
    with 2 show ?thesis by simp
  next
    case 3
    have "compare_from (x # xs) (y # ys) = compare_from xs ys"
      using 3 by simp
    also have "\<dots> = (if dval (rev xs) < dval (rev ys) then -1
        else if dval (rev xs) = dval (rev ys) then 0 else 1)"
      using Cons by (simp add: digits_ok_Cons)
    finally show ?thesis
      unfolding vx vy using 3 by simp
  qed
qed

lemma compare_dval:
  assumes "uint_inv a" "uint_inv b"
  shows "compare a b = (if dval a < dval b then -1 else if dval a = dval b then 0 else 1)"
proof -
  consider "length a > length b" | "length a < length b" | "length a = length b"
    by linarith
  then show ?thesis
  proof cases
    case 1
    then show ?thesis
      using uint_inv_length_less [OF assms(2,1)] by (simp add: compare_def)
  next
    case 2
    then show ?thesis
      using uint_inv_length_less [OF assms(1,2)] by (simp add: compare_def)
  next
    case 3
    have "compare a b = compare_from (rev a) (rev b)"
      using 3 by (simp add: compare_def)
    then show ?thesis
      using compare_from_dval [of "rev a" "rev b"] 3 assms
      by (simp add: uint_inv_def digits_ok_rev)
  qed
qed

text \<open>
  Claim C7. For normalized values the three-way comparison is negative, zero or positive
  exactly as the numeric values are ordered, every derived operator agrees with the order
  of the numeric values, and two normalized values with the same numeric value are the
  same vector, so the derived operators form a total order.
\<close>

theorem compare_consistent:
  assumes "uint_inv a" "uint_inv b"
  shows "(compare a b < 0) = (dval a < dval b)
       \<and> (compare a b = 0) = (dval a = dval b)
       \<and> (compare a b > 0) = (dval a > dval b)
       \<and> uint_less a b = (dval a < dval b)
       \<and> uint_greater a b = (dval a > dval b)
       \<and> uint_le a b = (dval a \<le> dval b)
       \<and> uint_ge a b = (dval a \<ge> dval b)
       \<and> uint_eq a b = (dval a = dval b)
       \<and> uint_neq a b = (dval a \<noteq> dval b)
       \<and> (dval a = dval b) = (a = b)"
proof -
  have "(dval a = dval b) = (a = b)"
    using uint_inv_inject [OF assms] by auto
  then show ?thesis
    unfolding uint_less_def uint_greater_def uint_le_def uint_ge_def uint_eq_def uint_neq_def
      compare_dval [OF assms]
    by auto
qed

theorem compare_consistent_witness:
  "uint_inv [5, 1] \<and> uint_inv [7] \<and> uint_greater [5, 1] [7] \<and> \<not> uint_le [5, 1] [7]
     \<and> dval [7] < dval [5, 1]"
  using compare_consistent [of "[5, 1]" "[7]"]
  by (simp add: uint_inv_def digits_ok_def BASE_def)

section \<open>Correctness of addition and subtraction\<close>

lemma add_short_loop_props:
  "0 \<le> rem \<Longrightarrow> rem < BASE \<Longrightarrow> digits_ok ds \<Longrightarrow>
     digits_ok (add_short_loop rem ds) \<and> dval (add_short_loop rem ds) = rem + dval ds
       \<and> (ds \<noteq> [] \<longrightarrow> add_short_loop rem ds \<noteq> [])"
proof (induction ds arbitrary: rem)
  case Nil
  then show ?case
    by (subst (1 2) add_short_loop.simps) (simp add: digits_ok_Cons digits_ok_Nil)
next
  case (Cons d ds)
  from Cons.prems have d: "0 \<le> d" "d < BASE" and ok: "digits_ok ds"
    by (simp_all add: digits_ok_Cons)
  have ih: "digits_ok (add_short_loop 1 ds) \<and> dval (add_short_loop 1 ds) = 1 + dval ds"
    using Cons.IH [of 1] ok BASE_gt1 by simp
  show ?case
    using Cons.prems d ih
    by (subst (1 2 3) add_short_loop.simps) (auto simp: digits_ok_Cons algebra_simps)
qed

lemma add_long_loop_props:
  "0 \<le> rem \<Longrightarrow> digits_ok a \<Longrightarrow> digits_ok b \<Longrightarrow>
     digits_ok (add_long_loop rem a b) \<and> dval (add_long_loop rem a b) = rem + dval a + dval b
       \<and> (a \<noteq> [] \<or> b \<noteq> [] \<longrightarrow> add_long_loop rem a b \<noteq> [])"
proof (induction rem a b rule: add_long_loop.induct)
  case (1 rem a b)
  show ?case
  proof (cases "a \<noteq> [] \<or> b \<noteq> [] \<or> rem > 0")
    case False
    then show ?thesis
      using 1(2) by (subst (1 2 3) add_long_loop.simps) (simp add: digits_ok_Nil)
  next
    case True
    define d1 where "d1 = (case a of [] \<Rightarrow> 0 | x # _ \<Rightarrow> x)"
    define d2 where "d2 = (case b of [] \<Rightarrow> 0 | y # _ \<Rightarrow> y)"
    define r where "r = rem + (d1 + d2)"
    have d1: "0 \<le> d1" "digits_ok (tl a)" "dval a = d1 + BASE * dval (tl a)"
      using 1(3) by (cases a; simp add: d1_def digits_ok_Cons digits_ok_Nil)+
    have d2: "0 \<le> d2" "digits_ok (tl b)" "dval b = d2 + BASE * dval (tl b)"
      using 1(4) by (cases b; simp add: d2_def digits_ok_Cons digits_ok_Nil)+
    have r: "0 \<le> r"
      using 1(2) d1 d2 by (simp add: r_def)
    have dv: "cdiv r BASE = r div BASE"
      using r BASE_pos by (simp add: cdiv_nonneg)
    have eq: "add_long_loop rem a b = (r mod BASE) # add_long_loop (r div BASE) (tl a) (tl b)"
      using True
      by (subst add_long_loop.simps)
        (simp add: Let_def d1_def [symmetric] d2_def [symmetric] r_def [symmetric] dv
          minus_div_mult_eq_mod)
    have "0 \<le> r div BASE"
      using r BASE_pos by (simp add: pos_imp_zdiv_nonneg_iff)
    then have ih: "digits_ok (add_long_loop (r div BASE) (tl a) (tl b))"
      "dval (add_long_loop (r div BASE) (tl a) (tl b)) = r div BASE + dval (tl a) + dval (tl b)"
      using "1.IH" [OF True d1_def d2_def r_def refl] d1(2) d2(2) by (simp_all add: dv)
    have "r mod BASE + BASE * (r div BASE) = r"
      by simp
    then have "r mod BASE + BASE * (r div BASE + dval (tl a) + dval (tl b))
        = rem + dval a + dval b"
      unfolding d1(3) d2(3) r_def by (simp add: algebra_simps)
    then show ?thesis
      using ih BASE_pos by (simp add: eq digits_ok_Cons)
  qed
qed

lemma add_short_small:
  assumes "uint_inv a" "0 \<le> num" "num < BASE"
  shows "\<exists>r. add_short a num = Some r \<and> uint_inv r \<and> dval r = dval a + num"
proof -
  have a: "digits_ok a" "a \<noteq> []"
    using assms(1) by (simp_all add: uint_inv_def)
  have p: "digits_ok (add_short_loop num a)" "dval (add_short_loop num a) = num + dval a"
    "add_short_loop num a \<noteq> []"
    using add_short_loop_props [OF assms(2,3) a(1)] a(2) by simp_all
  have "add_short a num = uint_normalize (add_short_loop num a)"
    using assms by (simp add: add_short.simps)
  then show ?thesis
    using normalize_total [OF p(3) p(1)] p(2) by auto
qed

lemma add_long_ok:
  assumes "uint_inv a" "uint_inv b"
  shows "\<exists>r. add_long a b = Some r \<and> uint_inv r \<and> dval r = dval a + dval b"
proof (cases "length b = 1")
  case True
  have b: "b ! 0 = dval b" "0 \<le> dval b" "dval b < BASE"
    using uint_inv_single_eq [OF assms(2) True] uint_inv_nonneg [OF assms(2)]
      uint_inv_upper [OF assms(2)] True by simp_all
  show ?thesis
    using add_short_small [OF assms(1) b(2,3)] True by (simp add: add_long.simps b(1))
next
  case False
  have a: "digits_ok a" "a \<noteq> []" and b: "digits_ok b"
    using assms by (simp_all add: uint_inv_def)
  have p: "digits_ok (add_long_loop 0 a b)" "dval (add_long_loop 0 a b) = dval a + dval b"
    "add_long_loop 0 a b \<noteq> []"
    using add_long_loop_props [of 0 a b] a b by simp_all
  have "add_long a b = uint_normalize (add_long_loop 0 a b)"
    using False by (simp add: add_long.simps)
  then show ?thesis
    using normalize_total [OF p(3) p(1)] p(2) by auto
qed

lemma add_short_ok:
  assumes "uint_inv a" "0 \<le> num"
  shows "\<exists>r. add_short a num = Some r \<and> uint_inv r \<and> dval r = dval a + num"
proof (cases "num < BASE")
  case True
  then show ?thesis
    by (rule add_short_small [OF assms])
next
  case False
  have "add_short a num = add_long a (int_digits num)"
    using False assms(2) by (simp add: add_short.simps UInt_of_int_ok)
  then show ?thesis
    using add_long_ok [OF assms(1) UInt_of_int_ok(2) [OF assms(2)]] UInt_of_int_ok(3) [OF assms(2)]
    by simp
qed

lemma sub_short_loop_props:
  "- BASE < rem \<Longrightarrow> rem \<le> 0 \<Longrightarrow> digits_ok ds \<Longrightarrow>
     (case sub_short_loop rem ds of (r, c) \<Rightarrow>
        digits_ok r \<and> length r = length ds \<and> - BASE < c \<and> c \<le> 0
          \<and> dval r + c * BASE ^ length ds = dval ds + rem)"
proof (induction ds arbitrary: rem)
  case Nil
  then show ?case by (simp add: digits_ok_Nil)
next
  case (Cons d ds)
  from Cons.prems have d: "0 \<le> d" "d < BASE" and ok: "digits_ok ds"
    by (simp_all add: digits_ok_Cons)
  obtain r c where rc: "sub_short_loop (-1) ds = (r, c)"
    by (cases "sub_short_loop (-1) ds")
  have ih: "digits_ok r" "length r = length ds" "- BASE < c" "c \<le> 0"
    "dval r + c * BASE ^ length ds = dval ds - 1"
    using Cons.IH [of "-1"] ok BASE_gt1 by (simp_all add: rc)
  consider "rem = 0" | "rem < 0" "rem + d < 0" | "rem < 0" "rem + d \<ge> 0"
    using Cons.prems(2) by linarith
  then show ?case
  proof cases
    case 1
    then show ?thesis
      using Cons.prems BASE_pos by simp
  next
    case 2
    have "BASE * dval r + BASE * (c * BASE ^ length ds) = BASE * (dval ds - 1)"
      using ih(5) by (simp flip: distrib_left)
    then have "rem + d + BASE + BASE * dval r + c * (BASE * BASE ^ length ds)
        = d + BASE * dval ds + rem"
      by (simp add: algebra_simps)
    then show ?thesis
      using 2 Cons.prems(1) d ih by (simp add: rc digits_ok_Cons)
  next
    case 3
    then show ?thesis
      using Cons.prems d ok by (simp add: digits_ok_Cons)
  qed
qed

lemma sub_long_loop_props:
  "rem = 0 \<or> rem = -1 \<Longrightarrow> digits_ok a \<Longrightarrow> digits_ok b \<Longrightarrow>
     (case sub_long_loop rem a b of (ds, c) \<Rightarrow>
        digits_ok ds \<and> length ds = length a \<and> (c = 0 \<or> c = -1)
          \<and> (length b \<le> length a \<longrightarrow>
                dval ds + c * BASE ^ length a = dval a - dval b + rem))"
proof (induction a arbitrary: rem b)
  case Nil
  then show ?case by (auto simp: digits_ok_Nil)
next
  case (Cons d1 a)
  define d2 where "d2 = (case b of [] \<Rightarrow> 0 | y # _ \<Rightarrow> y)"
  define r where "r = rem + (d1 - d2)"
  from Cons.prems have d1: "0 \<le> d1" "d1 < BASE" and ok: "digits_ok a"
    by (simp_all add: digits_ok_Cons)
  have d2: "0 \<le> d2" "d2 < BASE" "digits_ok (tl b)" "dval b = d2 + BASE * dval (tl b)"
    using Cons.prems(3) BASE_pos by (cases b; simp add: d2_def digits_ok_Cons digits_ok_Nil)+
  have r: "- BASE \<le> r" "r < BASE"
    using Cons.prems(1) d1 d2 by (auto simp: r_def)
  have len: "length b \<le> length (d1 # a) \<Longrightarrow> length (tl b) \<le> length a"
    by (cases b) auto
  consider "r < 0" | "0 \<le> r" "b = []" | "0 \<le> r" "b \<noteq> []"
    by linarith
  then show ?case
  proof cases
    case 1
    obtain ds c where rc: "sub_long_loop (-1) a (tl b) = (ds, c)"
      by (cases "sub_long_loop (-1) a (tl b)")
    have ih: "digits_ok ds" "length ds = length a" "c = 0 \<or> c = -1"
      "length (tl b) \<le> length a \<Longrightarrow> dval ds + c * BASE ^ length a = dval a - dval (tl b) - 1"
      using Cons.IH [of "-1" "tl b"] ok d2(3) by (simp_all add: rc)
    have eq: "sub_long_loop rem (d1 # a) b = ((r + BASE) # ds, c)"
      using 1 by (simp add: Let_def d2_def [symmetric] r_def [symmetric] rc)
    have v: "r + BASE + BASE * dval ds + c * (BASE * BASE ^ length a)
        = d1 + BASE * dval a - dval b + rem" if "length b \<le> length (d1 # a)"
    proof -
      have "BASE * dval ds + BASE * (c * BASE ^ length a) = BASE * (dval a - dval (tl b) - 1)"
        using ih(4) [OF len [OF that]] by (simp flip: distrib_left)
      then show ?thesis
        unfolding d2(4) r_def by (simp add: algebra_simps)
    qed
    show ?thesis
      using 1 r ih(1-3) v by (subst eq) (simp add: digits_ok_Cons)
  next
    case 2
    have eq: "sub_long_loop rem (d1 # a) b = (r # a, 0)"
      using 2 by (simp add: Let_def d2_def r_def)
    have "r + BASE * dval a = d1 + BASE * dval a - dval b + rem"
      using 2 by (simp add: r_def d2_def)
    then show ?thesis
      using 2 r ok by (subst eq) (simp add: digits_ok_Cons)
  next
    case 3
    obtain ds c where rc: "sub_long_loop 0 a (tl b) = (ds, c)"
      by (cases "sub_long_loop 0 a (tl b)")
    have ih: "digits_ok ds" "length ds = length a" "c = 0 \<or> c = -1"
      "length (tl b) \<le> length a \<Longrightarrow> dval ds + c * BASE ^ length a = dval a - dval (tl b)"
      using Cons.IH [of 0 "tl b"] ok d2(3) by (simp_all add: rc)
    have eq: "sub_long_loop rem (d1 # a) b = (r # ds, c)"
      using 3 by (simp add: Let_def d2_def [symmetric] r_def [symmetric] rc)
    have v: "r + BASE * dval ds + c * (BASE * BASE ^ length a)
        = d1 + BASE * dval a - dval b + rem" if "length b \<le> length (d1 # a)"
    proof -
      have "BASE * dval ds + BASE * (c * BASE ^ length a) = BASE * (dval a - dval (tl b))"
        using ih(4) [OF len [OF that]] by (simp flip: distrib_left)
      then show ?thesis
        unfolding d2(4) r_def by (simp add: algebra_simps)
    qed
    show ?thesis
      using 3 r ih(1-3) v by (subst eq) (simp add: digits_ok_Cons)
  qed
qed

lemma borrow_zero:
  assumes "digits_ok r" "length r = n" "c \<le> 0" "dval r + c * BASE ^ n = v" "0 \<le> v"
  shows "c = 0"
proof (rule ccontr)
  assume "c \<noteq> 0"
  with assms(3) have "c \<le> -1" by simp
  then have "c * BASE ^ n \<le> (-1) * BASE ^ n"
    using BASE_pos by (intro mult_right_mono) simp_all
  moreover have "dval r < BASE ^ n"
    using dval_upper [OF assms(1)] assms(2) by simp
  ultimately show False
    using assms(4,5) by simp
qed

lemma sub_short_small:
  assumes "uint_inv a" "0 \<le> num" "num < BASE" "num \<le> dval a"
  shows "\<exists>r. sub_short a num = Some r \<and> uint_inv r \<and> dval r = dval a - num"
proof -
  have a: "digits_ok a" "a \<noteq> []"
    using assms(1) by (simp_all add: uint_inv_def)
  obtain ds c where rc: "sub_short_loop (- num) a = (ds, c)"
    by (cases "sub_short_loop (- num) a")
  have p: "digits_ok ds" "length ds = length a" "c \<le> 0"
    "dval ds + c * BASE ^ length a = dval a - num"
    using sub_short_loop_props [of "- num" a] assms(2,3) a(1) by (simp_all add: rc)
  have c: "c = 0"
    using borrow_zero [OF p(1,2,3,4)] assms(4) by simp
  have "sub_short a num = uint_normalize ds"
    using assms(2,3) by (simp add: sub_short.simps rc c)
  moreover have "ds \<noteq> []"
    using p(2) a(2) by auto
  ultimately show ?thesis
    using normalize_total [OF _ p(1)] p(4) c by auto
qed

lemma sub_long_ok:
  assumes "uint_inv a" "uint_inv b" "dval b \<le> dval a"
  shows "\<exists>r. sub_long a b = Some r \<and> uint_inv r \<and> dval r = dval a - dval b"
proof (cases "length b = 1")
  case True
  have b: "b ! 0 = dval b" "0 \<le> dval b" "dval b < BASE"
    using uint_inv_single_eq [OF assms(2) True] uint_inv_nonneg [OF assms(2)]
      uint_inv_upper [OF assms(2)] True by simp_all
  show ?thesis
    using sub_short_small [OF assms(1) b(2,3) assms(3)] True by (simp add: sub_long.simps b(1))
next
  case False
  have a: "digits_ok a" "a \<noteq> []" and b: "digits_ok b"
    using assms by (simp_all add: uint_inv_def)
  have len: "length b \<le> length a"
    using uint_inv_length_less [OF assms(1,2)] assms(3) by (cases "length b \<le> length a") auto
  obtain ds c where rc: "sub_long_loop 0 a b = (ds, c)"
    by (cases "sub_long_loop 0 a b")
  have p: "digits_ok ds" "length ds = length a" "c \<le> 0"
    "dval ds + c * BASE ^ length a = dval a - dval b"
    using sub_long_loop_props [of 0 a b] a(1) b len by (auto simp: rc)
  have c: "c = 0"
    using borrow_zero [OF p(1,2,3,4)] assms(3) by simp
  have "sub_long a b = uint_normalize ds"
    using False len by (simp add: sub_long.simps rc c)
  moreover have "ds \<noteq> []"
    using p(2) a(2) by auto
  ultimately show ?thesis
    using normalize_total [OF _ p(1)] p(4) c by auto
qed

lemma sub_short_ok:
  assumes "uint_inv a" "0 \<le> num" "num \<le> dval a"
  shows "\<exists>r. sub_short a num = Some r \<and> uint_inv r \<and> dval r = dval a - num"
proof (cases "num < BASE")
  case True
  then show ?thesis
    using sub_short_small [OF assms(1,2)] assms(3) by simp
next
  case False
  have "sub_short a num = sub_long a (int_digits num)"
    using False assms(2) by (simp add: sub_short.simps UInt_of_int_ok)
  then show ?thesis
    using sub_long_ok [OF assms(1) UInt_of_int_ok(2) [OF assms(2)]] UInt_of_int_ok(3) [OF assms(2)]
      assms(3)
    by simp
qed

section \<open>Correctness of multiplication\<close>

lemma div_less_of_less_mult:
  fixes a b c :: int
  assumes "0 < b" "a < b * c"
  shows "a div b < c"
proof -
  have "b * (a div b) + a mod b = a"
    by simp
  moreover have "0 \<le> a mod b"
    using assms(1) by simp
  ultimately have "b * (a div b) < b * c"
    using assms(2) by linarith
  then show ?thesis
    using assms(1) by (simp add: mult_less_cancel_left_pos)
qed

lemma carry_bound:
  assumes "0 \<le> rem" "rem < BASE" "0 \<le> t" "t < BASE" "0 \<le> x" "x < BASE" "0 \<le> y" "y < BASE"
  shows "0 \<le> rem + (t + x * y)" "(rem + (t + x * y)) div BASE < BASE"
proof -
  show nn: "0 \<le> rem + (t + x * y)"
    using assms by simp
  have "x * y \<le> (BASE - 1) * (BASE - 1)"
    using assms by (intro mult_mono) simp_all
  then have "rem + (t + x * y) < BASE * BASE"
    using assms(2,4) by (simp add: algebra_simps)
  then show "(rem + (t + x * y)) div BASE < BASE"
    by (rule div_less_of_less_mult [OF BASE_pos])
qed

lemma mul_short_loop_props:
  "0 \<le> num \<Longrightarrow> num < BASE \<Longrightarrow> 0 \<le> rem \<Longrightarrow> rem < BASE \<Longrightarrow> digits_ok ds \<Longrightarrow>
     digits_ok (mul_short_loop num rem ds)
       \<and> dval (mul_short_loop num rem ds) = rem + dval ds * num
       \<and> (ds \<noteq> [] \<longrightarrow> mul_short_loop num rem ds \<noteq> [])"
proof (induction ds arbitrary: rem)
  case Nil
  then show ?case
    by (simp add: digits_ok_Cons digits_ok_Nil)
next
  case (Cons d ds)
  define r where "r = rem + d * num"
  from Cons.prems have d: "0 \<le> d" "d < BASE" and ok: "digits_ok ds"
    by (simp_all add: digits_ok_Cons)
  have r: "0 \<le> r" "r div BASE < BASE"
    using carry_bound [of rem 0 d num] Cons.prems d BASE_pos by (simp_all add: r_def)
  have dv: "cdiv r BASE = r div BASE"
    using r BASE_pos by (simp add: cdiv_nonneg)
  have eq: "mul_short_loop num rem (d # ds) = (r mod BASE) # mul_short_loop num (r div BASE) ds"
    by (simp add: Let_def r_def [symmetric] dv minus_div_mult_eq_mod)
  have "0 \<le> r div BASE"
    using r BASE_pos by (simp add: pos_imp_zdiv_nonneg_iff)
  then have ih: "digits_ok (mul_short_loop num (r div BASE) ds)"
    "dval (mul_short_loop num (r div BASE) ds) = r div BASE + dval ds * num"
    using Cons.IH [of "r div BASE"] Cons.prems(1,2) r(2) ok by simp_all
  have "r mod BASE + BASE * (r div BASE) = r"
    by simp
  then have "r mod BASE + BASE * (r div BASE + dval ds * num) = rem + (d + BASE * dval ds) * num"
    unfolding r_def by (simp add: algebra_simps)
  then show ?case
    unfolding eq using ih BASE_pos by (simp add: digits_ok_Cons)
qed

lemma mul_short_small:
  assumes "uint_inv a" "0 \<le> num" "num < BASE"
  shows "\<exists>r. mul_short env a num = Some r \<and> uint_inv r \<and> dval r = dval a * num"
proof -
  have a: "digits_ok a" "a \<noteq> []"
    using assms(1) by (simp_all add: uint_inv_def)
  have p: "digits_ok (mul_short_loop num 0 a)" "dval (mul_short_loop num 0 a) = dval a * num"
    "mul_short_loop num 0 a \<noteq> []"
    using mul_short_loop_props [OF assms(2,3) _ _ a(1), of 0] a(2) BASE_pos by simp_all
  have "mul_short env a num = uint_normalize (mul_short_loop num 0 a)"
    using assms by (simp add: mul_short.simps)
  then show ?thesis
    using normalize_total [OF p(3) p(1)] p(2) by auto
qed

lemma mult_row_props:
  "0 \<le> di \<Longrightarrow> di < BASE \<Longrightarrow> 0 \<le> rem \<Longrightarrow> rem < BASE \<Longrightarrow> digits_ok other \<Longrightarrow>
   digits_ok us \<Longrightarrow> length us = length other \<Longrightarrow>
     \<exists>vs. mult_row di rem other (us @ 0 # zs) = vs @ zs \<and> digits_ok vs
       \<and> length vs = length other + 1 \<and> dval vs = dval us + rem + di * dval other"
proof (induction other arbitrary: rem us)
  case Nil
  then have "mult_row di rem [] (us @ 0 # zs) = [rem] @ zs"
    by auto
  then show ?case
    using Nil by (intro exI [of _ "[rem]"]) (simp add: digits_ok_Cons digits_ok_Nil)
next
  case (Cons oj other)
  from Cons.prems obtain u us' where us: "us = u # us'"
    by (cases us) auto
  define r where "r = rem + (u + di * oj)"
  from Cons.prems have oj: "0 \<le> oj" "oj < BASE" and ok: "digits_ok other"
    and u: "0 \<le> u" "u < BASE" and ok': "digits_ok us'" and len: "length us' = length other"
    by (simp_all add: digits_ok_Cons us)
  have r: "0 \<le> r" "r div BASE < BASE"
    using carry_bound [of rem u di oj] Cons.prems(1-4) oj u by (simp_all add: r_def)
  have dv: "cdiv r BASE = r div BASE"
    using r BASE_pos by (simp add: cdiv_nonneg)
  have eq: "mult_row di rem (oj # other) (us @ 0 # zs)
      = (r mod BASE) # mult_row di (r div BASE) other (us' @ 0 # zs)"
    by (simp add: us Let_def r_def [symmetric] dv minus_div_mult_eq_mod)
  have "0 \<le> r div BASE"
    using r BASE_pos by (simp add: pos_imp_zdiv_nonneg_iff)
  then obtain vs where vs: "mult_row di (r div BASE) other (us' @ 0 # zs) = vs @ zs"
    "digits_ok vs" "length vs = length other + 1"
    "dval vs = dval us' + r div BASE + di * dval other"
    using Cons.IH [of "r div BASE" us'] Cons.prems(1,2) r(2) ok ok' len by blast
  have "r mod BASE + BASE * (r div BASE) = r"
    by simp
  then have "r mod BASE + BASE * (dval us' + r div BASE + di * dval other)
      = u + BASE * dval us' + rem + di * (oj + BASE * dval other)"
    unfolding r_def by (simp add: algebra_simps)
  then show ?case
    unfolding eq using vs BASE_pos
    by (intro exI [of _ "(r mod BASE) # vs"]) (simp add: digits_ok_Cons us)
qed

lemma mult_rows_props:
  "digits_ok a \<Longrightarrow> digits_ok other \<Longrightarrow> digits_ok us \<Longrightarrow> length us = length other \<Longrightarrow>
     digits_ok (mult_rows a other (us @ replicate (length a) 0))
       \<and> length (mult_rows a other (us @ replicate (length a) 0)) = length other + length a
       \<and> dval (mult_rows a other (us @ replicate (length a) 0)) = dval us + dval a * dval other"
proof (induction a arbitrary: us)
  case Nil
  then show ?case by simp
next
  case (Cons di a)
  from Cons.prems have di: "0 \<le> di" "di < BASE" and ok: "digits_ok a"
    by (simp_all add: digits_ok_Cons)
  obtain vs where vs:
    "mult_row di 0 other (us @ 0 # replicate (length a) 0) = vs @ replicate (length a) 0"
    "digits_ok vs" "length vs = length other + 1" "dval vs = dval us + 0 + di * dval other"
    using mult_row_props [OF di _ _ Cons.prems(2,3,4), of 0 "replicate (length a) 0"] BASE_pos
    by auto
  from vs(3) obtain t ws where tws: "vs = t # ws"
    by (cases vs) auto
  have ws: "digits_ok ws" "length ws = length other" "0 \<le> t" "t < BASE"
    using vs(2,3) by (simp_all add: tws digits_ok_Cons)
  have eq: "mult_rows (di # a) other (us @ replicate (length (di # a)) 0)
      = t # mult_rows a other (ws @ replicate (length a) 0)"
    using vs(1) by (simp add: tws)
  have ih: "digits_ok (mult_rows a other (ws @ replicate (length a) 0))"
    "length (mult_rows a other (ws @ replicate (length a) 0)) = length other + length a"
    "dval (mult_rows a other (ws @ replicate (length a) 0)) = dval ws + dval a * dval other"
    using Cons.IH [OF ok Cons.prems(2) ws(1,2)] by simp_all
  have "t + BASE * dval ws = dval us + di * dval other"
    using vs(4) by (simp add: tws)
  then have "t + BASE * (dval ws + dval a * dval other)
      = dval us + (di + BASE * dval a) * dval other"
    by (simp add: algebra_simps)
  then show ?case
    unfolding eq using ih ws by (simp add: digits_ok_Cons)
qed

lemma slow_mult_ok:
  assumes "uint_inv a" "uint_inv b"
  shows "\<exists>r. slow_mult env a b = Some r \<and> uint_inv r \<and> dval r = dval a * dval b"
proof (cases "length b = 1")
  case True
  have b: "b ! 0 = dval b" "0 \<le> dval b" "dval b < BASE"
    using uint_inv_single_eq [OF assms(2) True] uint_inv_nonneg [OF assms(2)]
      uint_inv_upper [OF assms(2)] True by simp_all
  show ?thesis
    using mul_short_small [OF assms(1) b(2,3), of env] True by (simp add: slow_mult.simps b(1))
next
  case False
  let ?t = "mult_rows a b (replicate (length a + length b) 0)"
  have a: "digits_ok a" "a \<noteq> []" and b: "digits_ok b"
    using assms by (simp_all add: uint_inv_def)
  have rep: "replicate (length a + length b) (0::int)
      = replicate (length b) 0 @ replicate (length a) 0"
    by (simp add: replicate_add [symmetric] add.commute)
  have p: "digits_ok ?t" "length ?t = length b + length a" "dval ?t = dval a * dval b"
    using mult_rows_props [OF a(1) b digits_ok_replicate0 [of "length b"]]
    by (simp_all add: rep dval_replicate0)
  have ne: "?t \<noteq> []"
    using p(2) a(2) by auto
  have "slow_mult env a b = uint_normalize ?t"
    using False by (simp add: slow_mult.simps UInt_of_vector_def)
  then show ?thesis
    using normalize_total [OF ne p(1)] p(3) by auto
qed

section \<open>The multiplication selector\<close>

lemma pow2_loop_props:
  "1 \<le> p \<Longrightarrow> \<exists>k. pow2_loop p temp = Some (p * 2 ^ k) \<and> temp \<le> p * 2 ^ k
     \<and> (\<forall>j<k. p * 2 ^ j < temp)"
proof (induction "nat (temp - p)" arbitrary: p rule: less_induct)
  case less
  show ?case
  proof (cases "p < temp")
    case False
    then have "pow2_loop p temp = Some (p * 2 ^ 0)"
      by (subst pow2_loop.simps) simp
    then show ?thesis
      using False by (intro exI [of _ 0]) simp
  next
    case True
    have "nat (temp - p * 2) < nat (temp - p)"
      using True less.prems by simp
    then obtain k where k: "pow2_loop (p * 2) temp = Some (p * 2 * 2 ^ k)"
      "temp \<le> p * 2 * 2 ^ k" "\<forall>j<k. p * 2 * 2 ^ j < temp"
      using less.hyps [of "p * 2"] less.prems by auto
    have eq: "pow2_loop p temp = Some (p * 2 ^ Suc k)"
      using True k(1) by (subst pow2_loop.simps) (simp add: mult.assoc)
    have "p * 2 ^ j < temp" if "j < Suc k" for j
    proof (cases j)
      case 0
      then show ?thesis using True by simp
    next
      case (Suc i)
      then show ?thesis
        using k(3) that by (simp add: mult.assoc)
    qed
    then show ?thesis
      using eq k(2) by (intro exI [of _ "Suc k"]) (simp add: mult.assoc)
  qed
qed

lemma mult_select:
  assumes "a \<noteq> [] \<or> b \<noteq> []"
  shows "\<exists>k. 3 * max (int (length a)) (int (length b)) \<le> 2 ^ Suc k
     \<and> (\<forall>j<Suc k. 2 ^ j < 3 * max (int (length a)) (int (length b)))
     \<and> mult env a b =
         (if int (length a) * int (length b) \<ge> 15 * spectral_cost env (2 ^ Suc (Suc k))
          then fast_mult env a b else slow_mult env a b)"
proof -
  let ?t = "3 * max (int (length a)) (int (length b))"
  obtain k where k: "pow2_loop 1 ?t = Some (1 * 2 ^ k)" "?t \<le> 1 * 2 ^ k"
    "\<forall>j<k. 1 * 2 ^ j < ?t"
    using pow2_loop_props [of 1 ?t] by auto
  have "3 \<le> ?t"
    using assms by (cases a; cases b) auto
  then have "k \<noteq> 0"
    using k(2) by (cases k) auto
  then obtain k' where k': "k = Suc k'"
    by (cases k) auto
  have "mult env a b =
      (if int (length a) * int (length b) \<ge> 15 * spectral_cost env (2 ^ k * 2)
       then fast_mult env a b else slow_mult env a b)"
    using k(1) by (simp add: mult.simps Let_def)
  then show ?thesis
    using k(2,3) unfolding k' by (intro exI [of _ k']) (simp add: mult.commute)
qed

lemma mult_by_choice:
  "mult env a b =
     (case mult_takes_fast env a b of
        None \<Rightarrow> None
      | Some f \<Rightarrow> if f then fast_mult env a b else slow_mult env a b)"
  by (simp add: mult.simps mult_takes_fast_def Let_def split: option.splits)

lemma mult_takes_fast_select:
  assumes "a \<noteq> [] \<or> b \<noteq> []"
  shows "\<exists>k. 3 * max (int (length a)) (int (length b)) \<le> 2 ^ Suc k
     \<and> (\<forall>j<Suc k. 2 ^ j < 3 * max (int (length a)) (int (length b)))
     \<and> mult_takes_fast env a b =
         Some (int (length a) * int (length b) \<ge> 15 * spectral_cost env (2 ^ Suc (Suc k)))"
proof -
  let ?t = "3 * max (int (length a)) (int (length b))"
  obtain k where k: "pow2_loop 1 ?t = Some (1 * 2 ^ k)" "?t \<le> 1 * 2 ^ k"
    "\<forall>j<k. 1 * 2 ^ j < ?t"
    using pow2_loop_props [of 1 ?t] by auto
  have "3 \<le> ?t"
    using assms by (cases a; cases b) auto
  then have "k \<noteq> 0"
    using k(2) by (cases k) auto
  then obtain k' where k': "k = Suc k'"
    by (cases k) auto
  have "mult_takes_fast env a b =
      Some (int (length a) * int (length b) \<ge> 15 * spectral_cost env (2 ^ k * 2))"
    using k(1) by (simp add: mult_takes_fast_def Let_def)
  then show ?thesis
    using k(2,3) unfolding k' by (intro exI [of _ k']) (simp add: mult.commute)
qed

lemma mult_schoolbook_ok:
  assumes "mult_takes_fast env a b = Some False" "uint_inv a" "uint_inv b"
  shows "\<exists>r. mult env a b = Some r \<and> uint_inv r \<and> dval r = dval a * dval b"
  using slow_mult_ok [OF assms(2,3), of env] by (simp add: mult_by_choice assms(1))

lemma mult_small_takes_slow:
  assumes "cost_sane env" "a \<noteq> []" "b \<noteq> []" "length a < 90 \<or> length b < 90"
  shows "mult_takes_fast env a b = Some False"
proof -
  let ?la = "int (length a)" and ?lb = "int (length b)"
  let ?L = "max ?la ?lb"
  obtain k where k: "3 * ?L \<le> 2 ^ Suc k"
    "mult_takes_fast env a b = Some (?la * ?lb \<ge> 15 * spectral_cost env (2 ^ Suc (Suc k)))"
    using mult_takes_fast_select [of a b env] assms(2) by auto
  have c: "(2::int) ^ Suc (Suc k) \<le> spectral_cost env (2 ^ Suc (Suc k))"
    using assms(1) by (simp only: cost_sane_def)
  have pos: "1 \<le> ?la" "1 \<le> ?lb"
    using assms(2,3) by (cases a; cases b; simp)+
  have "?la * ?lb \<le> 89 * ?L"
  proof (cases "length a < 90")
    case True
    then have "?la * ?lb \<le> 89 * ?lb"
      by (intro mult_right_mono) simp_all
    then show ?thesis by simp
  next
    case False
    then have "length b < 90"
      using assms(4) by simp
    then have "?la * ?lb \<le> ?la * 89"
      by (intro mult_left_mono) simp_all
    then show ?thesis by simp
  qed
  moreover have "1 \<le> ?L"
    using pos by simp
  ultimately have "?la * ?lb < 15 * spectral_cost env (2 ^ Suc (Suc k))"
    using k(1) c by simp
  then show ?thesis
    using k(2) by simp
qed

lemma mult_small_ok:
  assumes "cost_sane env" "uint_inv a" "uint_inv b" "length a < 90 \<or> length b < 90"
  shows "\<exists>r. mult env a b = Some r \<and> uint_inv r \<and> dval r = dval a * dval b"
proof -
  have "a \<noteq> []" "b \<noteq> []"
    using assms(2,3) by (simp_all add: uint_inv_def)
  then have "mult_takes_fast env a b = Some False"
    using assms(1,4) by (intro mult_small_takes_slow)
  then show ?thesis
    using assms(2,3) by (rule mult_schoolbook_ok)
qed

lemma mult_cost_sane:
  assumes "cost_sane env" "uint_inv a" "uint_inv b" "length b \<le> 2"
  shows "\<exists>r. mult env a b = Some r \<and> uint_inv r \<and> dval r = dval a * dval b"
proof -
  have ne: "a \<noteq> []"
    using assms(2) by (simp add: uint_inv_def)
  then obtain k where k: "3 * max (int (length a)) (int (length b)) \<le> 2 ^ Suc k"
    "mult env a b =
      (if int (length a) * int (length b) \<ge> 15 * spectral_cost env (2 ^ Suc (Suc k))
       then fast_mult env a b else slow_mult env a b)"
    using mult_select [of a b env] by auto
  have "(2::int) ^ Suc (Suc k) \<le> spectral_cost env (2 ^ Suc (Suc k))"
    using assms(1) by (simp only: cost_sane_def)
  moreover have "3 * int (length a) \<le> 2 ^ Suc k"
    using k(1) by simp
  moreover have "int (length a) * int (length b) \<le> int (length a) * 2"
    using assms(4) by (intro mult_left_mono) simp_all
  moreover have "1 \<le> int (length a)"
    using ne by (cases a) simp_all
  ultimately have "int (length a) * int (length b) < 15 * spectral_cost env (2 ^ Suc (Suc k))"
    by simp
  then have "mult env a b = slow_mult env a b"
    using k(2) by simp
  then show ?thesis
    using slow_mult_ok [OF assms(2,3), of env] by simp
qed

lemma short_mult_ok_sane: "cost_sane env \<Longrightarrow> short_mult_ok env"
  using mult_cost_sane by (simp add: short_mult_ok_def)

lemma mul_short_ok:
  assumes "short_mult_ok env" "uint_inv a" "0 \<le> num" "num < BASE * BASE"
  shows "\<exists>r. mul_short env a num = Some r \<and> uint_inv r \<and> dval r = dval a * num"
proof (cases "num < BASE")
  case True
  then show ?thesis
    by (rule mul_short_small [OF assms(2,3)])
next
  case False
  let ?o = "int_digits num"
  have o: "UInt_of_int num = Some ?o" "uint_inv ?o" "dval ?o = num"
    by (rule UInt_of_int_ok [OF assms(3)])+
  have "length ?o \<le> 2"
  proof (rule ccontr)
    assume "\<not> length ?o \<le> 2"
    then have l: "3 \<le> length ?o" by simp
    then have "BASE ^ 2 \<le> BASE ^ (length ?o - 1)"
      using BASE_gt1 by (intro power_increasing) simp_all
    moreover have "BASE ^ (length ?o - 1) \<le> dval ?o"
      using uint_inv_lower [OF o(2)] l by simp
    ultimately show False
      using assms(4) o(3) by (simp add: power2_eq_square)
  qed
  then have "\<exists>r. mult env a ?o = Some r \<and> uint_inv r \<and> dval r = dval a * dval ?o"
    using assms(1,2) o(2) by (simp add: short_mult_ok_def)
  moreover have "mul_short env a num = mult env a ?o"
    using False assms(3) o(1) by (simp add: mul_short.simps)
  ultimately show ?thesis
    by (simp add: o(3))
qed

section \<open>Correctness of division by a scalar\<close>

lemma div_short_loop_props:
  "0 < num \<Longrightarrow> 0 \<le> rem \<Longrightarrow> rem < num \<Longrightarrow> digits_ok ds \<Longrightarrow>
     length (div_short_loop num rem ds) = length ds
       \<and> list_all (\<lambda>q. 0 \<le> q \<and> q < BASE) (div_short_loop num rem ds)
       \<and> dval (rev (div_short_loop num rem ds))
            = (rem * BASE ^ length ds + dval (rev ds)) div num"
proof (induction ds arbitrary: rem)
  case Nil
  then show ?case by simp
next
  case (Cons d ds)
  define r where "r = rem * BASE + d"
  let ?n = "length ds"
  from Cons.prems have d: "0 \<le> d" "d < BASE" and ok: "digits_ok ds"
    by (simp_all add: digits_ok_Cons)
  have r0: "0 \<le> r"
    using Cons.prems(2) d BASE_pos by (simp add: r_def)
  have "rem * BASE \<le> (num - 1) * BASE"
    using Cons.prems(3) BASE_pos by (intro mult_right_mono) simp_all
  then have r1: "r < num * BASE"
    using d by (simp add: r_def algebra_simps)
  have dv: "cdiv r num = r div num"
    using r0 Cons.prems(1) by (simp add: cdiv_nonneg)
  have q: "0 \<le> r div num" "r div num < BASE"
    using r0 Cons.prems(1) div_less_of_less_mult [OF Cons.prems(1) r1]
    by (simp_all add: pos_imp_zdiv_nonneg_iff)
  have eq: "div_short_loop num rem (d # ds) = (r div num) # div_short_loop num (r mod num) ds"
    by (simp add: Let_def r_def [symmetric] dv minus_div_mult_eq_mod)
  have ih: "length (div_short_loop num (r mod num) ds) = ?n"
    "list_all (\<lambda>q. 0 \<le> q \<and> q < BASE) (div_short_loop num (r mod num) ds)"
    "dval (rev (div_short_loop num (r mod num) ds))
       = (r mod num * BASE ^ ?n + dval (rev ds)) div num"
    using Cons.IH [of "r mod num"] Cons.prems(1) ok by simp_all
  have e1: "rem * (BASE * BASE ^ ?n) + (dval (rev ds) + BASE ^ ?n * d)
      = r * BASE ^ ?n + dval (rev ds)"
    by (simp add: r_def algebra_simps)
  have "num * (r div num * BASE ^ ?n) + r mod num * BASE ^ ?n
      = (num * (r div num) + r mod num) * BASE ^ ?n"
    by (simp only: distrib_right mult.assoc)
  also have "\<dots> = r * BASE ^ ?n"
    by simp
  finally have e2: "r * BASE ^ ?n = num * (r div num * BASE ^ ?n) + r mod num * BASE ^ ?n"
    by simp
  have "(rem * (BASE * BASE ^ ?n) + (dval (rev ds) + BASE ^ ?n * d)) div num
      = (num * (r div num * BASE ^ ?n) + (r mod num * BASE ^ ?n + dval (rev ds))) div num"
    by (simp only: e1 e2 add.assoc)
  also have "\<dots> = r div num * BASE ^ ?n + (r mod num * BASE ^ ?n + dval (rev ds)) div num"
    using Cons.prems(1) by (subst div_mult_self4) simp_all
  finally have v: "(rem * (BASE * BASE ^ ?n) + (dval (rev ds) + BASE ^ ?n * d)) div num
      = r div num * BASE ^ ?n + (r mod num * BASE ^ ?n + dval (rev ds)) div num" .
  show ?case
    unfolding eq using ih q v by (simp add: dval_append algebra_simps)
qed

lemma div_short_small:
  assumes "uint_inv a" "0 < num" "num < BASE"
  shows "\<exists>q. div_short env a num = Some q \<and> uint_inv q \<and> dval q = dval a div num"
proof -
  let ?q = "rev (div_short_loop num 0 (rev a))"
  have a: "digits_ok (rev a)" "a \<noteq> []"
    using assms(1) by (simp_all add: uint_inv_def digits_ok_rev)
  have p: "length ?q = length a" "digits_ok ?q" "dval ?q = dval a div num"
    using div_short_loop_props [OF assms(2) _ assms(2) a(1)]
    by (simp_all add: digits_ok_def)
  have ne: "?q \<noteq> []"
    using p(1) a(2) by auto
  have "div_short env a num = uint_normalize ?q"
    using assms(2,3) by (simp add: div_short.simps)
  then show ?thesis
    using normalize_total [OF ne p(2)] p(3) by auto
qed

lemma mod_short_loop_props:
  "0 < num \<Longrightarrow> num * BASE \<le> 2 ^ 63 \<Longrightarrow> 0 \<le> rem \<Longrightarrow> rem < num \<Longrightarrow> digits_ok ds \<Longrightarrow>
     mod_short_loop num rem ds = Some ((rem * BASE ^ length ds + dval (rev ds)) mod num)"
proof (induction ds arbitrary: rem)
  case Nil
  then show ?case by simp
next
  case (Cons d ds)
  define r where "r = rem * BASE + d"
  let ?n = "length ds"
  from Cons.prems have d: "0 \<le> d" "d < BASE" and ok: "digits_ok ds"
    by (simp_all add: digits_ok_Cons)
  have r0: "0 \<le> rem * BASE" "0 \<le> r"
    using Cons.prems(3) d BASE_pos by (simp_all add: r_def)
  have "rem * BASE \<le> (num - 1) * BASE"
    using Cons.prems(4) BASE_pos by (intro mult_right_mono) simp_all
  then have r1: "r < num * BASE" "rem * BASE < num * BASE"
    using d Cons.prems(4) BASE_pos by (simp_all add: r_def algebra_simps)
  have rng: "in_int64 (rem * BASE)" "in_int64 r"
    using r0 r1 Cons.prems(2) by (simp_all add: in_int64_def)
  have md: "cmod r num = r mod num"
    using r0 Cons.prems(1) by (simp add: cmod_nonneg)
  have eq: "mod_short_loop num rem (d # ds) = mod_short_loop num (r mod num) ds"
    using rng by (simp add: r_def [symmetric] md)
  have ih: "mod_short_loop num (r mod num) ds
      = Some ((r mod num * BASE ^ ?n + dval (rev ds)) mod num)"
    using Cons.IH [of "r mod num"] Cons.prems(1,2) ok by simp
  have "(rem * (BASE * BASE ^ ?n) + (dval (rev ds) + BASE ^ ?n * d)) mod num
      = (r * BASE ^ ?n + dval (rev ds)) mod num"
    by (simp add: r_def algebra_simps)
  also have "\<dots> = (r mod num * BASE ^ ?n + dval (rev ds)) mod num"
    by (metis mod_add_left_eq mod_mult_left_eq)
  finally show ?case
    unfolding eq ih by (simp add: dval_append)
qed

lemma mod_short_small:
  assumes "uint_inv a" "0 < num" "num \<le> BASE"
  shows "mod_short a num = Some (dval a mod num)"
proof -
  have a: "digits_ok (rev a)"
    using assms(1) by (simp add: uint_inv_def digits_ok_rev)
  have "num * BASE \<le> BASE * BASE"
    using assms(3) BASE_pos by (intro mult_right_mono) simp_all
  also have "\<dots> \<le> 2 ^ 63"
    by (simp add: BASE_def)
  finally have "num * BASE \<le> 2 ^ 63" .
  then show ?thesis
    using mod_short_loop_props [OF assms(2) _ _ assms(2) a] assms(2)
    by (simp add: mod_short_def)
qed

lemma div_mod_single:
  assumes "uint_inv a" "uint_inv b" "0 < dval b" "length b = 1"
  shows "\<exists>q r. div_mod env a b = Some (q, r) \<and> uint_inv q \<and> uint_inv r
     \<and> dval q = dval a div dval b \<and> dval r = dval a mod dval b"
proof -
  have b: "b ! 0 = dval b" "dval b < BASE"
    using uint_inv_single_eq [OF assms(2,4)] uint_inv_upper [OF assms(2)] assms(4) by simp_all
  obtain q where q: "div_short env a (dval b) = Some q" "uint_inv q" "dval q = dval a div dval b"
    using div_short_small [OF assms(1,3) b(2), of env] by auto
  have m: "mod_short a (dval b) = Some (dval a mod dval b)"
    using mod_short_small [OF assms(1,3)] b(2) by simp
  have nn: "0 \<le> dval a mod dval b"
    using assms(3) by simp
  have "div_mod env a b = Some (q, int_digits (dval a mod dval b))"
    using assms(4) by (simp add: div_mod.simps b(1) q(1) m UInt_of_int_ok(1) [OF nn])
  then show ?thesis
    using q(2,3) UInt_of_int_ok(2,3) [OF nn] by simp
qed

section \<open>Correctness of long division\<close>

lemma compare_less_dval: "uint_inv a \<Longrightarrow> uint_inv b \<Longrightarrow> uint_less a b = (dval a < dval b)"
  by (simp add: uint_less_def compare_dval)

lemma compare_neq_dval: "uint_inv a \<Longrightarrow> uint_inv b \<Longrightarrow> uint_neq a b = (dval a \<noteq> dval b)"
  by (simp add: uint_neq_def compare_dval)

lemma uint_inv_length_le:
  assumes "uint_inv u" "dval u < BASE ^ m" "1 \<le> m"
  shows "length u \<le> m"
proof (rule ccontr)
  assume "\<not> length u \<le> m"
  then have l: "m < length u" by simp
  then have "BASE ^ m \<le> BASE ^ (length u - 1)"
    using BASE_gt1 by (intro power_increasing) simp_all
  moreover have "BASE ^ (length u - 1) \<le> dval u"
    using uint_inv_lower [OF assms(1)] l assms(3) by simp
  ultimately show False
    using assms(2) by simp
qed

lemma dval_take_drop: "dval u = dval (take k u) + BASE ^ k * dval (drop k u)"
proof (cases "k \<le> length u")
  case True
  have "dval u = dval (take k u @ drop k u)"
    by simp
  also have "\<dots> = dval (take k u) + BASE ^ length (take k u) * dval (drop k u)"
    by (rule dval_append)
  finally show ?thesis
    using True by (simp add: min_def)
next
  case False
  then show ?thesis by simp
qed

lemma dval_drop_step:
  "dval (drop k u) = (if k < length u then u ! k else 0) + BASE * dval (drop (Suc k) u)"
proof (cases "k < length u")
  case True
  then have "drop k u = u ! k # drop (Suc k) u"
    by (simp add: Cons_nth_drop_Suc)
  then show ?thesis
    using True by simp
next
  case False
  then show ?thesis by simp
qed

lemma dval_div_power:
  assumes "digits_ok u"
  shows "dval u div BASE ^ k = dval (drop k u)"
proof -
  have ok: "digits_ok (take k u)"
    using assms by (simp add: digits_ok_def list_all_length)
  have "dval (take k u) < BASE ^ length (take k u)"
    by (rule dval_upper [OF ok])
  also have "\<dots> \<le> BASE ^ k"
    using BASE_gt1 by (intro power_increasing) simp_all
  finally have lt: "dval (take k u) < BASE ^ k" .
  have "dval u div BASE ^ k = (dval (take k u) + BASE ^ k * dval (drop k u)) div BASE ^ k"
    using dval_take_drop [of u k] by simp
  also have "\<dots> = dval (take k u) div BASE ^ k + dval (drop k u)"
    using BASE_pos by (subst div_mult_self2) simp_all
  also have "dval (take k u) div BASE ^ k = 0"
    using lt dval_nonneg [OF ok] by (simp add: div_pos_pos_trivial)
  finally show ?thesis by simp
qed

lemma div_step_alt:
  "div_step env b r ai =
     do {
       r1 \<leftarrow> mul_short env r BASE;
       r2 \<leftarrow> add_short r1 ai;
       if last b = 0 then None
       else do {
         temp \<leftarrow> mul_short env b (quot_estimate b r2);
         (r3, d') \<leftarrow> correct_loop b temp r2 (quot_estimate b r2);
         r4 \<leftarrow> sub_long r3 temp;
         Some (r4, d')
       }
     }"
  unfolding div_step_def quot_estimate_def Let_def ..

lemma dval_last_lower:
  assumes "digits_ok b" "b \<noteq> []"
  shows "BASE ^ (length b - 1) * last b \<le> dval b"
proof -
  have "dval b = dval (butlast b @ [last b])"
    using assms(2) by simp
  also have "\<dots> = dval (butlast b) + BASE ^ (length b - 1) * last b"
    by (subst dval_append) simp
  finally show ?thesis
    using dval_nonneg [OF digits_ok_butlast [OF assms(1)]] by simp
qed

lemma uint_inv_last_pos:
  assumes "uint_inv b" "0 < dval b"
  shows "0 < last b"
proof (cases "length b = 1")
  case True
  then show ?thesis
    using assms by (cases b) auto
next
  case False
  then have "1 < length b"
    using assms(1) by (cases b) (auto simp: uint_inv_def)
  then show ?thesis
    using assms(1) digits_ok_last [of b] by (auto simp: uint_inv_def)
qed

lemma quot_estimate_props:
  assumes "uint_inv b" "0 < dval b" "uint_inv r2" "dval r2 < dval b * BASE"
  shows "0 \<le> quot_estimate b r2" "quot_estimate b r2 < BASE * BASE"
    "dval r2 div dval b \<le> quot_estimate b r2"
proof -
  let ?n = "length b"
  define s1 where "s1 = (if ?n < length r2 then r2 ! ?n else 0)"
  define s2 where "s2 = (if ?n - 1 < length r2 then r2 ! (?n - 1) else 0)"
  have b: "digits_ok b" "b \<noteq> []" and r2: "digits_ok r2"
    using assms(1,3) by (simp_all add: uint_inv_def)
  have n: "1 \<le> ?n"
    using b(2) by (cases b) simp_all
  have v: "0 < last b"
    by (rule uint_inv_last_pos [OF assms(1,2)])
  have dig: "0 \<le> r2 ! i \<and> r2 ! i < BASE" if "i < length r2" for i
    using r2 that by (simp add: digits_ok_def list_all_length)
  have s: "0 \<le> s1" "s1 < BASE" "0 \<le> s2" "s2 < BASE"
    using dig BASE_pos by (simp_all add: s1_def s2_def)
  have c1: "(if int (length r2) \<le> int ?n then 0 else r2 ! nat (int ?n)) = s1"
    by (auto simp: s1_def)
  have "nat (int ?n - 1) = ?n - 1"
    by simp
  moreover have "int (length r2) \<le> int ?n - 1 \<longleftrightarrow> \<not> ?n - 1 < length r2"
    using n by auto
  ultimately have c2: "(if int (length r2) \<le> int ?n - 1 then 0 else r2 ! nat (int ?n - 1)) = s2"
    by (simp add: s2_def)
  have "quot_estimate b r2 = cdiv (1 * BASE * s1 + s2) (last b)"
    unfolding quot_estimate_def Let_def c1 c2 ..
  moreover have "0 \<le> 1 * BASE * s1 + s2"
    using s BASE_pos by simp
  ultimately have est: "quot_estimate b r2 = (BASE * s1 + s2) div last b"
    using v by (simp add: cdiv_nonneg)
  have top: "0 \<le> BASE * s1 + s2" "BASE * s1 + s2 < BASE * BASE"
  proof -
    show "0 \<le> BASE * s1 + s2"
      using s BASE_pos by simp
    have "BASE * s1 \<le> BASE * (BASE - 1)"
      using s(2) BASE_pos by (intro mult_left_mono) simp_all
    then show "BASE * s1 + s2 < BASE * BASE"
      using s(4) by (simp add: algebra_simps)
  qed
  show "0 \<le> quot_estimate b r2"
    using top(1) v by (simp add: est pos_imp_zdiv_nonneg_iff)
  have "(BASE * s1 + s2) div last b \<le> BASE * s1 + s2"
    using top(1) v by (metis div_by_1 int_one_le_iff_zero_less zdiv_mono2 zero_less_one)
  then show "quot_estimate b r2 < BASE * BASE"
    using top(2) by (simp add: est)
  have "dval b < BASE ^ ?n"
    by (rule uint_inv_upper [OF assms(1)])
  then have "dval b * BASE \<le> BASE ^ ?n * BASE"
    using BASE_pos by (intro mult_right_mono) simp_all
  then have "dval r2 < BASE ^ ?n * BASE"
    using assms(4) by linarith
  then have "dval r2 < BASE ^ (?n + 1)"
    by (simp add: mult.commute)
  then have len: "length r2 \<le> ?n + 1"
    by (rule uint_inv_length_le [OF assms(3)]) simp
  have "Suc (?n - 1) = ?n"
    using n by simp
  then have "dval (drop (?n - 1) r2) = s2 + BASE * dval (drop ?n r2)"
    using dval_drop_step [of "?n - 1" r2] by (simp add: s2_def)
  also have "dval (drop ?n r2) = s1 + BASE * dval (drop (Suc ?n) r2)"
    using dval_drop_step [of ?n r2] by (simp add: s1_def)
  also have "drop (Suc ?n) r2 = []"
    using len by simp
  finally have hi: "dval r2 div BASE ^ (?n - 1) = BASE * s1 + s2"
    using dval_div_power [OF r2, of "?n - 1"] by simp
  have pv: "0 < BASE ^ (?n - 1) * last b"
    using v BASE_pos by simp
  have "dval r2 div dval b \<le> dval r2 div (BASE ^ (?n - 1) * last b)"
    using uint_inv_nonneg [OF assms(3)] pv dval_last_lower [OF b]
    by (intro zdiv_mono2) simp_all
  also have "\<dots> = dval r2 div BASE ^ (?n - 1) div last b"
    using v by (simp add: zdiv_zmult2_eq)
  finally show "dval r2 div dval b \<le> quot_estimate b r2"
    by (simp only: est hi)
qed

lemma correct_loop_props:
  assumes "uint_inv b" "0 < dval b" "uint_inv temp"
  shows "uint_inv r \<Longrightarrow>
    \<exists>k r'. correct_loop b temp r d = Some (r', d - int k) \<and> uint_inv r'
      \<and> dval r' = dval r + int k * dval b \<and> dval temp \<le> dval r'
      \<and> (k = 0 \<or> dval r' - dval b < dval temp)"
proof (induction "nat (dval temp - dval r)" arbitrary: r d rule: less_induct)
  case less
  show ?case
  proof (cases "dval r < dval temp")
    case False
    then have "correct_loop b temp r d = Some (r, d - int 0)"
      using less.prems assms(3) by (subst correct_loop.simps) (simp add: compare_less_dval)
    then show ?thesis
      using False less.prems by (intro exI [of _ 0] exI [of _ r]) simp
  next
    case True
    obtain r1 where r1: "add_long r b = Some r1" "uint_inv r1" "dval r1 = dval r + dval b"
      using add_long_ok [OF less.prems assms(1)] by auto
    have "nat (dval temp - dval r1) < nat (dval temp - dval r)"
      using True assms(2) r1(3) by simp
    then obtain k r' where k: "correct_loop b temp r1 (d - 1) = Some (r', d - 1 - int k)"
      "uint_inv r'" "dval r' = dval r1 + int k * dval b" "dval temp \<le> dval r'"
      "k = 0 \<or> dval r' - dval b < dval temp"
      using less.hyps [OF _ r1(2), of "d - 1"] by blast
    have eq: "correct_loop b temp r d = Some (r', d - int (Suc k))"
      using True less.prems assms(3) k(1) r1(1)
      by (subst correct_loop.simps) (simp add: compare_less_dval)
    have "dval r' - dval b < dval temp"
      using k(5) k(3) r1(3) True by (cases "k = 0") simp_all
    moreover have "dval r' = dval r + int (Suc k) * dval b"
      using k(3) r1(3) by (simp add: algebra_simps)
    ultimately show ?thesis
      using eq k(2,4) by (intro exI [of _ "Suc k"] exI [of _ r']) simp
  qed
qed

lemma div_step_ok:
  assumes env: "short_mult_ok env"
    and b: "uint_inv b" "0 < dval b"
    and r: "uint_inv r" "dval r < dval b"
    and ai: "0 \<le> ai" "ai < BASE"
  shows "\<exists>r'. div_step env b r ai = Some (r', (dval r * BASE + ai) div dval b)
     \<and> uint_inv r' \<and> dval r' = (dval r * BASE + ai) mod dval b
     \<and> 0 \<le> (dval r * BASE + ai) div dval b \<and> (dval r * BASE + ai) div dval b < BASE"
proof -
  let ?R = "dval r * BASE + ai"
  have "BASE * 1 < BASE * BASE"
    using BASE_gt1 BASE_pos by (intro mult_strict_left_mono) simp_all
  then obtain r1 where r1: "mul_short env r BASE = Some r1" "uint_inv r1"
    "dval r1 = dval r * BASE"
    using mul_short_ok [OF env r(1), of BASE] BASE_pos by auto
  obtain r2 where r2: "add_short r1 ai = Some r2" "uint_inv r2" "dval r2 = ?R"
    using add_short_ok [OF r1(2) ai(1)] r1(3) by auto
  have R0: "0 \<le> ?R"
    using uint_inv_nonneg [OF r(1)] ai(1) BASE_pos by simp
  have "dval r * BASE \<le> (dval b - 1) * BASE"
    using r(2) BASE_pos by (intro mult_right_mono) simp_all
  then have R1: "?R < dval b * BASE"
    using ai(2) by (simp add: algebra_simps)
  define d where "d = quot_estimate b r2"
  have d: "0 \<le> d" "d < BASE * BASE" "?R div dval b \<le> d"
    using quot_estimate_props [OF b r2(2)] R1 by (simp_all add: d_def r2(3))
  obtain temp where temp: "mul_short env b d = Some temp" "uint_inv temp"
    "dval temp = dval b * d"
    using mul_short_ok [OF env b(1) d(1,2)] by auto
  obtain k r3 where c: "correct_loop b temp r2 d = Some (r3, d - int k)" "uint_inv r3"
    "dval r3 = ?R + int k * dval b" "dval temp \<le> dval r3"
    "k = 0 \<or> dval r3 - dval b < dval temp"
    using correct_loop_props [OF b temp(2) r2(2), of d] r2(3) by auto
  obtain r4 where r4: "sub_long r3 temp = Some r4" "uint_inv r4"
    "dval r4 = dval r3 - dval temp"
    using sub_long_ok [OF c(2) temp(2) c(4)] by auto
  define q where "q = d - int k"
  have v: "?R = dval b * q + dval r4"
    using r4(3) c(3) temp(3) by (simp add: q_def algebra_simps)
  have lo: "0 \<le> dval r4"
    by (rule uint_inv_nonneg [OF r4(2)])
  have hi: "dval r4 < dval b"
  proof (cases "k = 0")
    case True
    have "dval b * (?R div dval b) \<le> dval b * d"
      using d(3) b(2) by (intro mult_left_mono) simp_all
    moreover have "?R - dval b * (?R div dval b) = ?R mod dval b"
      by (simp add: minus_mult_div_eq_mod)
    moreover have "?R mod dval b < dval b"
      using b(2) by simp
    ultimately show ?thesis
      using v True by (simp add: q_def)
  next
    case False
    then show ?thesis
      using c(5) r4(3) by simp
  qed
  have qd: "?R div dval b = q"
    by (rule int_div_pos_eq [OF v lo hi])
  have qm: "?R mod dval b = dval r4"
    by (rule int_mod_pos_eq [OF v lo hi])
  have q0: "0 \<le> ?R div dval b"
    using R0 b(2) by (simp add: pos_imp_zdiv_nonneg_iff)
  have q1: "?R div dval b < BASE"
    by (rule div_less_of_less_mult [OF b(2) R1])
  have "last b \<noteq> 0"
    using uint_inv_last_pos [OF b] by simp
  then have "div_step env b r ai = Some (r4, q)"
    by (simp add: div_step_alt r1(1) r2(1) d_def [symmetric] temp(1) c(1) r4(1) q_def)
  then show ?thesis
    using r4(2) qm q0 q1 by (simp add: qd)
qed

lemma div_loop_ok:
  assumes env: "short_mult_ok env" and b: "uint_inv b" "0 < dval b"
  shows "uint_inv r \<Longrightarrow> dval r < dval b \<Longrightarrow> digits_ok as \<Longrightarrow>
    \<exists>qs r'. div_loop env b r q as = Some (qs @ q, r') \<and> length qs = length as
      \<and> digits_ok qs \<and> uint_inv r'
      \<and> dval qs = (dval r * BASE ^ length as + dval (rev as)) div dval b
      \<and> dval r' = (dval r * BASE ^ length as + dval (rev as)) mod dval b"
proof (induction as arbitrary: r q)
  case Nil
  then show ?case
    using uint_inv_nonneg [OF Nil(1)] by (simp add: digits_ok_Nil)
next
  case (Cons ai as)
  let ?n = "length as"
  let ?R = "dval r * BASE + ai"
  let ?X = "dval (rev as)"
  from Cons.prems have ai: "0 \<le> ai" "ai < BASE" and ok: "digits_ok as"
    by (simp_all add: digits_ok_Cons)
  obtain r1 where s: "div_step env b r ai = Some (r1, ?R div dval b)" "uint_inv r1"
    "dval r1 = ?R mod dval b" "0 \<le> ?R div dval b" "?R div dval b < BASE"
    using div_step_ok [OF env b Cons.prems(1,2) ai] by auto
  have "dval r1 < dval b"
    using b(2) by (simp add: s(3))
  then obtain qs r' where ih: "div_loop env b r1 (?R div dval b # q) as
      = Some (qs @ (?R div dval b # q), r')" "length qs = ?n" "digits_ok qs" "uint_inv r'"
    "dval qs = (dval r1 * BASE ^ ?n + ?X) div dval b"
    "dval r' = (dval r1 * BASE ^ ?n + ?X) mod dval b"
    using Cons.IH [OF s(2) _ ok, of "?R div dval b # q"] by blast
  have e: "dval r * BASE ^ length (ai # as) + dval (rev (ai # as))
      = dval b * (?R div dval b * BASE ^ ?n) + (dval r1 * BASE ^ ?n + ?X)"
  proof -
    have "dval b * (?R div dval b * BASE ^ ?n) + dval r1 * BASE ^ ?n
        = (dval b * (?R div dval b) + ?R mod dval b) * BASE ^ ?n"
      by (simp only: s(3) distrib_right mult.assoc)
    also have "\<dots> = ?R * BASE ^ ?n"
      by simp
    finally show ?thesis
      by (simp add: dval_append algebra_simps)
  qed
  have dq: "(dval r * BASE ^ length (ai # as) + dval (rev (ai # as))) div dval b
      = ?R div dval b * BASE ^ ?n + dval qs"
    unfolding e ih(5) using b(2) by (subst div_mult_self4) simp_all
  have dm: "(dval r * BASE ^ length (ai # as) + dval (rev (ai # as))) mod dval b = dval r'"
    unfolding e ih(6) by (rule mod_mult_self4)
  have "div_loop env b r q (ai # as) = Some ((qs @ [?R div dval b]) @ q, r')"
    using s(1) ih(1) by simp
  moreover have "digits_ok (qs @ [?R div dval b])"
    using ih(3) s(4,5) by (simp add: digits_ok_append digits_ok_Cons digits_ok_Nil)
  moreover have "dval (qs @ [?R div dval b]) = ?R div dval b * BASE ^ ?n + dval qs"
    using ih(2) by (simp add: dval_append)
  ultimately show ?case
    using ih(2,4) dq dm
    by (intro exI [of _ "qs @ [?R div dval b]"] exI [of _ r']) (simp del: append_assoc)
qed

lemma norm_bounds:
  assumes "1 \<le> v" "v < BASE"
  shows "1 \<le> BASE div (v + 1)" "BASE div (v + 1) < BASE" "cdiv BASE (v + 1) = BASE div (v + 1)"
proof -
  have "(v + 1) div (v + 1) \<le> BASE div (v + 1)"
    using assms by (intro zdiv_mono1) simp_all
  then show "1 \<le> BASE div (v + 1)"
    using assms(1) by simp
  have "BASE div (v + 1) \<le> BASE div 2"
    using assms BASE_pos by (intro zdiv_mono2) simp_all
  also have "\<dots> < BASE"
    by (simp add: BASE_def)
  finally show "BASE div (v + 1) < BASE" .
  show "cdiv BASE (v + 1) = BASE div (v + 1)"
    using assms(1) BASE_pos by (simp add: cdiv_nonneg)
qed

lemma div_mod_long:
  assumes env: "short_mult_ok env" and a: "uint_inv a" and b: "uint_inv b" "length b \<noteq> 1"
  shows "\<exists>q r. div_mod env a b = Some (q, r) \<and> uint_inv q \<and> uint_inv r
     \<and> dval q = dval a div dval b \<and> dval r = dval a mod dval b"
proof -
  define norm where "norm = BASE div (last b + 1)"
  have ne: "b \<noteq> []" and len: "1 < length b"
    using b by (cases b; auto simp: uint_inv_def)+
  have v: "1 \<le> last b" "last b < BASE"
    using b(1) len digits_ok_last [of b] by (auto simp: uint_inv_def)
  have n: "1 \<le> norm" "norm < BASE" "cdiv BASE (last b + 1) = norm"
    using norm_bounds [OF v] by (simp_all add: norm_def)
  have bpos: "0 < dval b"
    using uint_inv_lower [OF b(1) len] BASE_pos
    by (smt (verit) zero_less_power)
  obtain a' where a': "mul_short env a norm = Some a'" "uint_inv a'" "dval a' = dval a * norm"
    using mul_short_small [OF a _ n(2), of env] n(1) by auto
  obtain b' where b': "mul_short env b norm = Some b'" "uint_inv b'" "dval b' = dval b * norm"
    using mul_short_small [OF b(1) _ n(2), of env] n(1) by auto
  have b'pos: "0 < dval b'"
    using bpos n(1) by (simp add: b'(3))
  have z: "uint_inv [0]" "dval [0] < dval b'"
    using BASE_pos b'pos by (simp_all add: uint_inv_single)
  have oka: "digits_ok (rev a')" "a' \<noteq> []"
    using a'(2) by (simp_all add: uint_inv_def digits_ok_rev)
  obtain qs r where l: "div_loop env b' [0] [] (rev a') = Some (qs @ [], r)"
    "length qs = length (rev a')" "digits_ok qs" "uint_inv r"
    "dval qs = (dval [0] * BASE ^ length (rev a') + dval (rev (rev a'))) div dval b'"
    "dval r = (dval [0] * BASE ^ length (rev a') + dval (rev (rev a'))) mod dval b'"
    using div_loop_ok [OF env b'(2) b'pos z oka(1), of "[]"] by blast
  have qs: "qs \<noteq> []"
    using l(2) oka(2) by auto
  obtain q' where q': "uint_normalize qs = Some q'" "uint_inv q'" "dval q' = dval qs"
    using normalize_total [OF qs l(3)] by auto
  have n0: "0 < norm"
    using n(1) by simp
  obtain r' where r': "div_short env r norm = Some r'" "uint_inv r'" "dval r' = dval r div norm"
    using div_short_small [OF l(4) n0 n(2), of env] by auto
  have vq: "dval q' = dval a div dval b"
    using n0 by (simp add: q'(3) l(5) a'(3) b'(3))
  have "dval r = (dval a mod dval b) * norm"
    by (simp add: l(6) a'(3) b'(3) mod_mult_mult2)
  then have vr: "dval r' = dval a mod dval b"
    using n0 by (simp add: r'(3))
  have "last b + 1 \<noteq> 0"
    using v(1) by simp
  then have "div_mod env a b = Some (q', r')"
    using b(2) ne l(1) by (simp add: div_mod.simps n(3) a'(1) b'(1) q'(1) r'(1))
  then show ?thesis
    using q'(2) r'(2) vq vr by simp
qed

lemma div_mod_ok:
  assumes "short_mult_ok env" "uint_inv a" "uint_inv b" "0 < dval b"
  shows "\<exists>q r. div_mod env a b = Some (q, r) \<and> uint_inv q \<and> uint_inv r
     \<and> dval q = dval a div dval b \<and> dval r = dval a mod dval b"
proof (cases "length b = 1")
  case True
  then show ?thesis
    by (rule div_mod_single [OF assms(2,3,4)])
next
  case False
  then show ?thesis
    by (rule div_mod_long [OF assms(1,2,3)])
qed

lemma uint_mod_ok:
  assumes "short_mult_ok env" "uint_inv a" "uint_inv b" "0 < dval b"
  shows "\<exists>r. uint_mod env a b = Some r \<and> uint_inv r \<and> dval r = dval a mod dval b"
  using div_mod_ok [OF assms] by (auto simp: uint_mod_def)

lemma uint_div_ok:
  assumes "short_mult_ok env" "uint_inv a" "uint_inv b" "0 < dval b"
  shows "\<exists>q. uint_div env a b = Some q \<and> uint_inv q \<and> dval q = dval a div dval b"
  using div_mod_ok [OF assms] by (auto simp: uint_div_def)

text \<open>
  Claim C1. For every \<open>a\<close> and every \<open>b > 0\<close> that satisfy the invariant, \<open>div_mod\<close> returns
  a quotient \<open>q\<close> and a remainder \<open>r\<close> with \<open>q * b + r = a\<close> and \<open>r < b\<close>, on the path for a
  divisor of one digit and on the long-division path alike; \<open>q\<close> and \<open>r\<close> satisfy the
  invariant, and the comparison of the code finds \<open>r < b\<close>. The only assumption on the
  floating-point part is \<open>cost_sane\<close>, under which the selector multiplies by the two-digit
  numbers of the division with \<open>slow_mult\<close>.
\<close>

theorem div_mod_identity:
  assumes "cost_sane env" "uint_inv a" "uint_inv b" "0 < dval b"
  shows "\<exists>q r. div_mod env a b = Some (q, r) \<and> uint_inv q \<and> uint_inv r
     \<and> dval q * dval b + dval r = dval a \<and> dval r < dval b \<and> uint_less r b"
proof -
  obtain q r where qr: "div_mod env a b = Some (q, r)" "uint_inv q" "uint_inv r"
    "dval q = dval a div dval b" "dval r = dval a mod dval b"
    using div_mod_ok [OF short_mult_ok_sane [OF assms(1)] assms(2,3,4)] by blast
  have "dval r < dval b"
    using assms(4) by (simp add: qr(5))
  moreover have "dval q * dval b + dval r = dval a"
    by (simp add: qr(4,5))
  ultimately show ?thesis
    using qr(1,2,3) assms(3) by (simp add: compare_less_dval)
qed

section \<open>Facts about the environments\<close>

lemma ilog2_power: "ilog2 (2 ^ k) = int k"
proof (induction k)
  case 0
  show ?case by (subst ilog2.simps) simp
next
  case (Suc k)
  have "(1::int) < 2 ^ Suc k"
    by (smt (verit) one_less_power zero_less_Suc)
  then show ?case
    using Suc by (subst ilog2.simps) simp
qed

lemma cost_sane_exact_env: "cost_sane exact_env"
proof -
  have "(2::int) ^ Suc k \<le> 3 * 2 ^ Suc k * int (Suc k)" for k
  proof -
    have "(2::int) ^ Suc k * 1 \<le> 2 ^ Suc k * (3 * int (Suc k))"
      by (intro mult_left_mono) simp_all
    then show ?thesis by (simp add: algebra_simps)
  qed
  then show ?thesis
    unfolding cost_sane_def exact_env_def by (simp add: ilog2_power del: power_Suc)
qed

lemma cost_near_exact_env: "cost_near exact_env"
  by (simp add: cost_near_def exact_env_def ilog2_power)



theorem div_mod_identity_witness:
  "div_mod exact_env [0, 0, 0, 999999999] [999999999, 999999999]
       = Some ([0, 999999999], [0, 999999999])
     \<and> dval [0, 999999999] * dval [999999999, 999999999] + dval [0, 999999999]
         = dval [0, 0, 0, 999999999]
     \<and> dval [0, 999999999] < dval [999999999, 999999999]
     \<and> div_mod exact_env [0, 0, 100] [7] = Some ([714285714, 285714285, 14], [2])
     \<and> dval [714285714, 285714285, 14] * dval [7] + dval [2] = dval [0, 0, 100]
     \<and> dval [2] < dval [7]"
proof -
  have e: "div_mod exact_env [0, 0, 0, 999999999] [999999999, 999999999]
      = Some ([0, 999999999], [0, 999999999])"
    "div_mod exact_env [0, 0, 100] [7] = Some ([714285714, 285714285, 14], [2])"
    by code_simp+
  have h: "uint_inv [0, 0, 0, 999999999]" "uint_inv [999999999, 999999999]"
    "0 < dval [999999999, 999999999]" "uint_inv [0, 0, 100]" "uint_inv [7]" "0 < dval [7]"
    by (simp_all add: uint_inv_def digits_ok_def BASE_def)
  show ?thesis
    using e div_mod_identity [OF cost_sane_exact_env h(1,2,3)]
      div_mod_identity [OF cost_sane_exact_env h(4,5,6)]
    by simp
qed

section \<open>Greatest common divisor\<close>

lemma int_digits_0: "int_digits 0 = [0]"
  by (subst int_digits.simps) (simp add: cdiv_def cmod_def)

lemma UInt_of_int_0: "UInt_of_int 0 = Some [0]"
  using UInt_of_int_ok(1) [of 0] by (simp add: int_digits_0)

lemma uint_inv_zero: "uint_inv [0]"
  using BASE_pos by (simp add: uint_inv_single)

lemma uint_gcd_zero:
  assumes "uint_inv b" "dval b = 0"
  shows "uint_gcd env a b = Some a"
  using assms uint_inv_zero
  by (subst uint_gcd.simps) (simp add: UInt_of_int_0 compare_neq_dval)

lemma uint_gcd_step:
  assumes "uint_inv b" "dval b \<noteq> 0"
  shows "uint_gcd env a b = uint_mod env a b \<bind> uint_gcd env b"
  using assms uint_inv_zero
  by (subst uint_gcd.simps) (simp add: UInt_of_int_0 compare_neq_dval)

lemma uint_gcd_ok:
  assumes env: "short_mult_ok env"
  shows "uint_inv a \<Longrightarrow> uint_inv b \<Longrightarrow>
    \<exists>g. uint_gcd env a b = Some g \<and> uint_inv g \<and> dval g = gcd (dval a) (dval b)"
proof (induction "nat (dval b)" arbitrary: a b rule: less_induct)
  case less
  show ?case
  proof (cases "dval b = 0")
    case True
    then show ?thesis
      using uint_gcd_zero [OF less.prems(2) True] less.prems(1) uint_inv_nonneg [OF less.prems(1)]
      by simp
  next
    case False
    then have pos: "0 < dval b"
      using uint_inv_nonneg [OF less.prems(2)] by simp
    obtain r where r: "uint_mod env a b = Some r" "uint_inv r" "dval r = dval a mod dval b"
      using uint_mod_ok [OF env less.prems pos] by auto
    have "nat (dval r) < nat (dval b)"
      using pos by (simp add: r(3))
    then obtain g where g: "uint_gcd env b r = Some g" "uint_inv g"
      "dval g = gcd (dval b) (dval r)"
      using less.hyps [OF _ less.prems(2) r(2)] by auto
    have "gcd (dval a) (dval b) = gcd (dval b) (dval a mod dval b)"
      by (rule gcd_red_int)
    then show ?thesis
      using g r uint_gcd_step [OF less.prems(2) False, of env a] by simp
  qed
qed

text \<open>
  Claim C9. For operands that satisfy the invariant \<open>gcd\<close> returns, and its result is the
  greatest common divisor of the numeric values; \<open>gcd(a, 0)\<close> is \<open>a\<close>; for \<open>b > 0\<close> the
  Euclidean step computes \<open>a mod b\<close>, which is smaller than \<open>b\<close>, and \<open>gcd(a, b)\<close> is
  \<open>gcd(b, a mod b)\<close>. The assumption on the floating-point part is \<open>cost_sane\<close>, as for the
  division.
\<close>

theorem uint_gcd_correct:
  assumes "cost_sane env" "uint_inv a" "uint_inv b"
  shows "(\<exists>g. uint_gcd env a b = Some g \<and> uint_inv g \<and> dval g = gcd (dval a) (dval b))
     \<and> (dval b = 0 \<longrightarrow> uint_gcd env a b = Some a)
     \<and> (0 < dval b \<longrightarrow>
          (\<exists>r. uint_mod env a b = Some r \<and> uint_inv r \<and> dval r = dval a mod dval b
             \<and> dval r < dval b \<and> uint_gcd env a b = uint_gcd env b r))"
proof -
  note env = short_mult_ok_sane [OF assms(1)]
  have "\<exists>r. uint_mod env a b = Some r \<and> uint_inv r \<and> dval r = dval a mod dval b
      \<and> dval r < dval b \<and> uint_gcd env a b = uint_gcd env b r" if pos: "0 < dval b"
  proof -
    obtain r where r: "uint_mod env a b = Some r" "uint_inv r" "dval r = dval a mod dval b"
      using uint_mod_ok [OF env assms(2,3) pos] by auto
    have "uint_gcd env a b = uint_gcd env b r"
      using uint_gcd_step [OF assms(3), of env a] pos r(1) by simp
    then show ?thesis
      using r pos by simp
  qed
  then show ?thesis
    using uint_gcd_ok [OF env assms(2,3)] uint_gcd_zero [OF assms(3)] by blast
qed

theorem uint_gcd_correct_witness:
  "(\<exists>g. uint_gcd exact_env [48] [18] = Some g \<and> uint_inv g \<and> dval g = gcd (dval [48]) (dval [18]))
     \<and> (\<exists>r. uint_mod exact_env [48] [18] = Some r \<and> dval r = dval [48] mod dval [18]
           \<and> uint_gcd exact_env [48] [18] = uint_gcd exact_env [18] r)
     \<and> uint_gcd exact_env [48] [0] = Some [48]"
proof -
  have h: "uint_inv [48]" "uint_inv [18]" "uint_inv [0]"
    by (simp_all add: uint_inv_single BASE_def)
  show ?thesis
    using uint_gcd_correct [OF cost_sane_exact_env h(1,2)]
      uint_gcd_correct [OF cost_sane_exact_env h(1,3)]
    by auto
qed

section \<open>Modular exponentiation\<close>

lemma int_digits_1: "int_digits 1 = [1]"
  by (subst int_digits.simps) (simp add: cdiv_def cmod_def BASE_def)

lemma UInt_of_int_1: "UInt_of_int 1 = Some [1]"
  using UInt_of_int_ok(1) [of 1] by (simp add: int_digits_1)

lemma uint_inv_one: "uint_inv [1]"
  using BASE_gt1 by (simp add: uint_inv_single)

lemma pow_mod_loop_stop: "n \<le> 0 \<Longrightarrow> pow_mod_loop env res a n m = Some res"
  by (subst pow_mod_loop.simps) simp

text \<open>
  One round of the loop of \<open>pow\<close>. The product \<open>res * a\<close> has an operand of fewer than 90
  digits, and the square \<open>a * a\<close> is one that the selector gives to the schoolbook loops.
\<close>

lemma pow_mod_loop_step:
  assumes cs: "cost_sane env" and m: "0 < m" and n: "0 < n"
    and res: "uint_inv res" and a: "uint_inv a"
    and ra: "length res < 90 \<or> length a < 90"
    and sq: "mult_takes_fast env a a = Some False"
  shows "\<exists>res' a'. pow_mod_loop env res a n m = pow_mod_loop env res' a' (n div 2) m
     \<and> uint_inv res' \<and> uint_inv a'
     \<and> dval res' = dval res * dval a ^ nat (n mod 2)
     \<and> dval a' = (dval a * dval a) mod m"
proof -
  have c: "cmod n 2 = n mod 2" "cdiv n 2 = n div 2"
    using n by (simp_all add: cmod_nonneg cdiv_nonneg)
  obtain res' where res': "(if n mod 2 \<noteq> 0 then mult env res a else Some res) = Some res'"
    "uint_inv res'" "dval res' = dval res * dval a ^ nat (n mod 2)"
  proof (cases "n mod 2 = 0")
    case True
    then show ?thesis
      using that [of res] res by simp
  next
    case False
    then have "n mod 2 = 1" by presburger
    then show ?thesis
      using that mult_small_ok [OF cs res a ra] by auto
  qed
  obtain a2 where a2: "mult env a a = Some a2" "uint_inv a2" "dval a2 = dval a * dval a"
    using mult_schoolbook_ok [OF sq a a] by auto
  have m0: "0 \<le> m"
    using m by simp
  have mm: "UInt_of_int m = Some (int_digits m)" "uint_inv (int_digits m)"
    "0 < dval (int_digits m)"
    using UInt_of_int_ok [OF m0] m by simp_all
  obtain a3 where a3: "uint_mod env a2 (int_digits m) = Some a3" "uint_inv a3"
    "dval a3 = dval a2 mod m"
    using uint_mod_ok [OF short_mult_ok_sane [OF cs] a2(2) mm(2,3)] UInt_of_int_ok(3) [OF m0]
    by auto
  have "pow_mod_loop env res a n m = pow_mod_loop env res' a3 (n div 2) m"
    by (subst pow_mod_loop.simps)
      (simp only: n c res'(1) a2(1) mm(1) a3(1) if_True option.case)
  then show ?thesis
    using res'(2,3) a3(2,3) a2(3) by auto
qed

text \<open>A value below a modulus that fits \<open>long long\<close> has at most three digits.\<close>

lemma reduced_base_short:
  assumes "uint_inv a" "dval a < m" "m < 2 ^ 63"
  shows "length a \<le> 3"
proof -
  have "dval a < BASE ^ 3"
    using assms(2,3) by (simp add: BASE_def)
  then show ?thesis
    using assms(1) by (intro uint_inv_length_le) simp_all
qed

lemma pow_mod_loop_ok:
  assumes cs: "cost_sane env" and m: "0 < m" and mb: "m < 2 ^ 63"
  shows "uint_inv res \<Longrightarrow> uint_inv a \<Longrightarrow> length res < 90 \<or> length a < 90 \<Longrightarrow>
    mult_takes_fast env a a = Some False \<Longrightarrow>
    \<exists>r. pow_mod_loop env res a n m = Some r \<and> uint_inv r
      \<and> dval r mod m = (dval res * dval a ^ nat n) mod m"
proof (induction "nat n" arbitrary: res a n rule: less_induct)
  case less
  show ?case
  proof (cases "0 < n")
    case False
    then have "nat n = 0" by simp
    then show ?thesis
      using False less.prems(1) by (simp add: pow_mod_loop_stop)
  next
    case True
    obtain res' a' where s: "pow_mod_loop env res a n m = pow_mod_loop env res' a' (n div 2) m"
      "uint_inv res'" "uint_inv a'" "dval res' = dval res * dval a ^ nat (n mod 2)"
      "dval a' = (dval a * dval a) mod m"
      using pow_mod_loop_step [OF cs m True less.prems] by blast
    have "dval a' < m"
      using m by (simp add: s(5))
    then have l3: "length a' \<le> 3"
      using s(3) mb by (intro reduced_base_short)
    have ne: "a' \<noteq> []"
      using s(3) by (simp add: uint_inv_def)
    have ra': "length res' < 90 \<or> length a' < 90"
      using l3 by simp
    have sq': "mult_takes_fast env a' a' = Some False"
      using l3 by (intro mult_small_takes_slow [OF cs ne ne]) simp
    have "nat (n div 2) < nat n"
      using True by simp
    then obtain r where r: "pow_mod_loop env res' a' (n div 2) m = Some r" "uint_inv r"
      "dval r mod m = (dval res' * dval a' ^ nat (n div 2)) mod m"
      using less.hyps [OF _ s(2,3) ra' sq'] by blast
    have "nat (n mod 2 + 2 * (n div 2)) = nat (n mod 2) + nat (2 * (n div 2))"
      using True by (intro nat_add_distrib) simp_all
    then have n2: "nat n = nat (n mod 2) + 2 * nat (n div 2)"
      by (simp add: nat_mult_distrib)
    have "(dval res' * dval a' ^ nat (n div 2)) mod m
        = (dval res' * (((dval a * dval a) mod m) ^ nat (n div 2) mod m)) mod m"
      by (simp add: s(5) mod_mult_right_eq)
    also have "\<dots> = (dval res' * ((dval a * dval a) ^ nat (n div 2) mod m)) mod m"
      by (simp add: power_mod)
    also have "\<dots> = (dval res' * (dval a * dval a) ^ nat (n div 2)) mod m"
      by (simp add: mod_mult_right_eq)
    also have "dval res' * (dval a * dval a) ^ nat (n div 2) = dval res * dval a ^ nat n"
      by (subst n2) (simp add: s(4) power_add power_mult power2_eq_square)
    finally show ?thesis
      using r(1,2) by (simp add: s(1) r(3))
  qed
qed

lemma pow_modular:
  assumes "cost_sane env" "0 < m" "m < 2 ^ 63" "uint_inv a"
    "mult_takes_fast env a a = Some False"
  shows "\<exists>r. pow env a n m = Some r \<and> uint_inv r \<and> dval r mod m = dval a ^ nat n mod m"
proof -
  have "length [1::int] < 90 \<or> length a < 90"
    by simp
  then show ?thesis
    using pow_mod_loop_ok [OF assms(1,2,3) uint_inv_one assms(4) _ assms(5), of n] assms(2)
    by (simp add: pow_def UInt_of_int_1)
qed

lemma pow_exponent_one:
  assumes "cost_sane env" "0 < m" "uint_inv a" "mult_takes_fast env a a = Some False"
  shows "pow env a 1 m = Some a"
proof -
  have "length [1::int] < 90 \<or> length a < 90"
    by simp
  then obtain res' a' where
    s: "pow_mod_loop env [1] a 1 m = pow_mod_loop env res' a' (1 div 2) m"
    "uint_inv res'" "dval res' = dval [1] * dval a ^ nat (1 mod 2)"
    using pow_mod_loop_step [OF assms(1,2) _ uint_inv_one assms(3) _ assms(4), of 1] by auto
  have "res' = a"
    using s(3) by (intro uint_inv_inject [OF s(2) assms(3)]) simp
  then show ?thesis
    using assms(2) by (simp add: pow_def UInt_of_int_1 s(1) pow_mod_loop_stop)
qed

text \<open>
  With a cost estimate that is \<open>3 * pow * log2 pow\<close> or one less, the square of a value of
  at most 4703 digits is computed by the schoolbook loops: \<open>4703 * 4703 = 22118209\<close> is
  below \<open>15 * (3 * 2 ^ 15 * 15 - 1) = 22118385\<close>.
\<close>

lemma base_square_schoolbook:
  assumes cn: "cost_near env" and ne: "a \<noteq> []" and le: "length a \<le> 4703"
  shows "mult_takes_fast env a a = Some False"
proof -
  let ?L = "int (length a)"
  obtain k where k: "3 * ?L \<le> 2 ^ Suc k" "\<forall>j<Suc k. 2 ^ j < 3 * ?L"
    "mult_takes_fast env a a = Some (?L * ?L \<ge> 15 * spectral_cost env (2 ^ Suc (Suc k)))"
    using mult_takes_fast_select [of a a env] ne by auto
  have L: "1 \<le> ?L" "?L \<le> 4703"
    using ne le by (cases a; simp)+
  have k14: "Suc k \<le> 14"
  proof (rule ccontr)
    assume "\<not> Suc k \<le> 14"
    then have "14 < Suc k"
      by simp
    then have "(2::int) ^ 14 < 3 * ?L"
      using k(2) by blast
    then show False
      using L(2) by simp
  qed
  have "1 \<le> Suc (Suc k) \<and> Suc (Suc k) \<le> 46"
    using k14 by simp
  then have cost: "3 * 2 ^ Suc (Suc k) * int (Suc (Suc k)) - 1
      \<le> spectral_cost env (2 ^ Suc (Suc k))"
    using cn by (simp only: cost_near_def)
  have "?L * ?L < 15 * (3 * 2 ^ Suc (Suc k) * int (Suc (Suc k)) - 1)"
  proof -
    consider "Suc k \<le> 11" | "k = 11" | "k = 12" | "k = 13"
      using k14 by linarith
    then show ?thesis
    proof cases
      case 1
      then have "(2::int) ^ Suc k \<le> 2 ^ 11"
        by (intro power_increasing) simp_all
      then have "?L \<le> 682"
        using k(1) by simp
      then have s: "?L * ?L \<le> 682 * ?L"
        by (intro mult_right_mono) simp_all
      have "k \<noteq> 0"
        using k(1) L(1) by (intro notI) simp
      then have n: "(2::int) ^ Suc (Suc k) * 3 \<le> 2 ^ Suc (Suc k) * int (Suc (Suc k))"
        by (intro mult_left_mono) simp_all
      have q: "(2::int) ^ Suc (Suc k) = 2 * 2 ^ Suc k"
        by simp
      have "(S::int) < 15 * (3 * M - 1)"
        if "S \<le> 682 * L" "Q * 3 \<le> M" "Q = 2 * P" "3 * L \<le> P" "1 \<le> L" for S L P Q M
        using that by (simp add: algebra_simps)
      from this [OF s n q k(1) L(1)] show ?thesis
        by (simp only: mult.assoc)
    next
      case 2
      have "?L \<le> 1365"
        using k(1) by (simp add: 2)
      then have "?L * ?L \<le> 1365 * 1365"
        by (intro mult_mono) simp_all
      then show ?thesis
        by (simp add: 2)
    next
      case 3
      have "?L \<le> 2730"
        using k(1) by (simp add: 3)
      then have "?L * ?L \<le> 2730 * 2730"
        by (intro mult_mono) simp_all
      then show ?thesis
        by (simp add: 3)
    next
      case 4
      have "?L * ?L \<le> 4703 * 4703"
        using L(2) by (intro mult_mono) simp_all
      then show ?thesis
        by (simp add: 4)
    qed
  qed
  then have "\<not> ?L * ?L \<ge> 15 * spectral_cost env (2 ^ Suc (Suc k))"
    using cost by simp
  then show ?thesis
    using k(3) by simp
qed

text \<open>
  The result of \<open>pow\<close> for a base whose square the selector gives to the schoolbook loops:
  for an exponent \<open>n \<ge> 0\<close> and a modulus \<open>m > 0\<close> that fits \<open>long long\<close>, the call returns a
  value congruent to \<open>a ^ n\<close> modulo \<open>m\<close>, and the value is not reduced: \<open>pow(a, 1, m)\<close> is \<open>a\<close>
  itself. The first square \<open>a * a\<close> is the only product of \<open>pow\<close> whose operands can both be
  long; all later bases are below \<open>m\<close>. For a base whose square is computed by
  \<open>UInt::fast_mult\<close> the result depends on the floating-point transforms.
\<close>

lemma pow_congruent_schoolbook:
  assumes "cost_sane env" "uint_inv a" "0 \<le> n" "0 < m" "m < 2 ^ 63"
    "mult_takes_fast env a a = Some False"
  shows "(\<exists>r. pow env a n m = Some r \<and> uint_inv r \<and> dval r mod m = dval a ^ nat n mod m)
     \<and> pow env a 1 m = Some a"
  using pow_modular [OF assms(1,4,5,2,6)] pow_exponent_one [OF assms(1,4,2,6)] by simp

lemma pow_congruent_short_base:
  assumes "cost_sane env" "cost_near env" "uint_inv a" "length a \<le> 4703" "0 \<le> n" "0 < m"
    "m < 2 ^ 63"
  shows "(\<exists>r. pow env a n m = Some r \<and> uint_inv r \<and> dval r mod m = dval a ^ nat n mod m)
     \<and> pow env a 1 m = Some a"
proof -
  have "a \<noteq> []"
    using assms(3) by (simp add: uint_inv_def)
  then have "mult_takes_fast env a a = Some False"
    using assms(2,4) by (intro base_square_schoolbook)
  then show ?thesis
    using assms by (intro pow_congruent_schoolbook)
qed




section \<open>The selector between the two multiplications\<close>








section \<open>Addition of a scalar on the left\<close>

lemma uint_plus_scalar_sum:
  assumes "uint_inv x" "0 \<le> s"
  shows "\<exists>r. uint_plus_scalar x s = Some r \<and> uint_inv r \<and> dval r = dval x + s"
  using add_short_ok [OF assms] by (simp add: uint_plus_scalar_def)

lemma scalar_plus_uint_product:
  assumes "uint_inv x" "0 \<le> s" "s < BASE"
  shows "\<exists>r. scalar_plus_uint env s x = Some r \<and> uint_inv r \<and> dval r = dval x * s"
  using mul_short_small [OF assms] by (simp add: scalar_plus_uint_def)

text \<open>
  Claim C4 holds for \<open>x + s\<close> and fails for \<open>s + x\<close>: \<open>operator+(const int64_t, const UInt&)\<close>
  returns the product \<open>b * a\<close>. For \<open>s = 2\<close> and \<open>x = 3\<close> the code returns 6 for \<open>s + x\<close> and 5 for
  \<open>x + s\<close>.
\<close>

theorem scalar_plus_uint_is_product:
  "scalar_plus_uint exact_env 2 [3] = Some [6] \<and> uint_plus_scalar [3] 2 = Some [5]
     \<and> scalar_plus_uint exact_env 2 [3] = scalar_times_uint exact_env 2 [3]"
  by (simp add: scalar_plus_uint_def scalar_times_uint_def uint_plus_scalar_def
      mul_short.simps add_short.simps add_short_loop.simps uint_normalize_def trim.simps
      digits_ok_def cdiv_def BASE_def)

section \<open>The decimal round trip\<close>

lemma is_digit_props:
  assumes "is_digit c"
  shows "0 \<le> digit_of c" "digit_of c < 10" "char_of (48 + digit_of c) = c"
    "\<not> is_space c" "c \<noteq> CHR ''-''" "c \<noteq> CHR ''+''"
  using assms by (auto simp: is_digit_def digit_of_def is_space_def)

lemma char_of_48: "char_of (48::int) = CHR ''0''"
proof -
  have "of_char (CHR ''0'') = (48::int)"
    by simp
  then have "char_of (48::int) = char_of (of_char (CHR ''0'') :: int)"
    by simp
  then show ?thesis
    by (simp only: char_of_char)
qed

lemma digit_of_zero: "is_digit c \<Longrightarrow> digit_of c = 0 \<Longrightarrow> c = CHR ''0''"
proof -
  assume "is_digit c" "digit_of c = 0"
  then have "char_of (48 + (0::int)) = c"
    using is_digit_props(3) [of c] by simp
  then show ?thesis by (simp add: char_of_48)
qed

lemma dec_val_snoc: "dec_val (w @ [c]) = 10 * dec_val w + digit_of c"
  by (simp add: dec_val_def)

lemma dec_val_bounds: "list_all is_digit w \<Longrightarrow> 0 \<le> dec_val w \<and> dec_val w < 10 ^ length w"
proof (induction w rule: rev_induct)
  case Nil
  show ?case by (simp add: dec_val_def)
next
  case (snoc c w)
  then have "0 \<le> dec_val w" "dec_val w \<le> 10 ^ length w - 1" "0 \<le> digit_of c" "digit_of c < 10"
    using is_digit_props(1,2) [of c] by simp_all
  then show ?case
    by (simp add: dec_val_snoc)
qed

lemma stoi_digits:
  assumes "list_all is_digit w" "w \<noteq> []" "length w \<le> 9"
  shows "stoi w = Some (dec_val w)"
proof -
  obtain c w' where w: "w = c # w'"
    using assms(2) by (cases w) auto
  have c: "is_digit c"
    using assms(1) by (simp add: w)
  have t: "dropWhile is_space w = w"
    using is_digit_props(4) [OF c] by (simp add: w)
  have h: "hd w \<noteq> CHR ''-''" "hd w \<noteq> CHR ''+''"
    using is_digit_props(5,6) [OF c] by (simp_all add: w)
  have tw: "takeWhile is_digit w = w"
    using assms(1) by (simp add: list_all_iff)
  have "(10::int) ^ length w \<le> 10 ^ 9"
    using assms(3) by (intro power_increasing) simp_all
  then have "0 \<le> dec_val w" "dec_val w < 2 ^ 31"
    using dec_val_bounds [OF assms(1)] by simp_all
  then show ?thesis
    using assms(2) h by (simp add: stoi_def t tw Let_def)
qed

lemma show_digits_small: "n < 10 \<Longrightarrow> show_digits n = [char_of (48 + n)]"
  by (subst show_digits.simps) simp

lemma show_digits_step:
  assumes "0 < n" "0 \<le> d" "d < 10"
  shows "show_digits (10 * n + d) = show_digits n @ [char_of (48 + d)]"
proof -
  have "\<not> 10 * n + d < 10" "(10 * n + d) div 10 = n" "(10 * n + d) mod 10 = d"
    using assms by simp_all
  then show ?thesis
    by (subst show_digits.simps) simp
qed

lemma setw0_step:
  assumes "0 \<le> n" "0 \<le> d" "d < 10" "1 \<le> k"
  shows "setw0 (Suc k) (show_digits (10 * n + d)) = setw0 k (show_digits n) @ [char_of (48 + d)]"
proof (cases "n = 0")
  case True
  have "replicate k (CHR ''0'') = replicate (k - 1) (CHR ''0'') @ [CHR ''0'']"
    using assms(4) by (cases k) (simp_all add: replicate_append_same)
  then show ?thesis
    using True assms(2,3) by (simp add: setw0_def show_digits_small char_of_48)
next
  case False
  then have "0 < n"
    using assms(1) by simp
  then show ?thesis
    using assms(2,3) by (simp add: setw0_def show_digits_step Suc_diff_le)
qed

lemma setw0_dec_val:
  "w \<noteq> [] \<Longrightarrow> list_all is_digit w \<Longrightarrow> setw0 (length w) (show_digits (dec_val w)) = w"
proof (induction w rule: rev_nonempty_induct)
  case (single c)
  then have c: "is_digit c" by simp
  have "dec_val [c] = digit_of c"
    by (simp add: dec_val_def)
  then show ?case
    using is_digit_props(2,3) [OF c] by (simp add: setw0_def show_digits_small)
next
  case (snoc c w)
  then have c: "is_digit c" and w: "list_all is_digit w"
    by simp_all
  have k: "1 \<le> length w"
    using snoc.hyps by (cases w) simp_all
  have "setw0 (Suc (length w)) (show_digits (10 * dec_val w + digit_of c))
      = setw0 (length w) (show_digits (dec_val w)) @ [char_of (48 + digit_of c)]"
    using dec_val_bounds [OF w] is_digit_props(1,2) [OF c] k by (intro setw0_step) simp_all
  then show ?case
    using snoc.IH [OF w] is_digit_props(3) [OF c] by (simp add: dec_val_snoc)
qed

lemma show_int_dec_val:
  assumes "w \<noteq> []" "list_all is_digit w" "hd w \<noteq> CHR ''0'' \<or> w = ''0''"
  shows "show_int (dec_val w) = w"
proof -
  have nn: "0 \<le> dec_val w"
    using dec_val_bounds [OF assms(2)] by simp
  show ?thesis
  proof (cases "w = ''0''")
    case True
    then show ?thesis
      by (simp add: show_int_def dec_val_def digit_of_def show_digits_small char_of_48)
  next
    case False
    with assms(3) have h: "hd w \<noteq> CHR ''0''" by simp
    have e: "replicate (length w - length (show_digits (dec_val w))) (CHR ''0'')
        @ show_digits (dec_val w) = w"
      using setw0_dec_val [OF assms(1,2)] by (simp add: setw0_def)
    have "length w - length (show_digits (dec_val w)) = 0"
    proof (rule ccontr)
      assume "length w - length (show_digits (dec_val w)) \<noteq> 0"
      then obtain j where "length w - length (show_digits (dec_val w)) = Suc j"
        by (cases "length w - length (show_digits (dec_val w))") auto
      then have "hd w = CHR ''0''"
        using e by (metis append_Cons hd_append2 list.sel(1) list.distinct(1) replicate_Suc)
      with h show False by simp
    qed
    then show ?thesis
      using e nn by (simp add: show_int_def)
  qed
qed

lemma dec_val_pos:
  assumes "w \<noteq> []" "list_all is_digit w" "hd w \<noteq> CHR ''0''"
  shows "0 < dec_val w"
proof (rule ccontr)
  assume "\<not> 0 < dec_val w"
  then have z: "dec_val w = 0"
    using dec_val_bounds [OF assms(2)] by simp
  have "show_int (dec_val w) = w"
    using show_int_dec_val [OF assms(1,2)] assms(3) by simp
  then have "w = ''0''"
    by (auto simp: z show_int_def show_digits_small char_of_48)
  with assms(3) show False by simp
qed

lemma those_map_Some: "(\<And>x. x \<in> set xs \<Longrightarrow> f x = Some (h x)) \<Longrightarrow> those (map f xs) = Some (map h xs)"
  by (induction xs) simp_all

lemma list_all_take_drop: "list_all P xs \<Longrightarrow> list_all P (take n (drop k xs))"
  by (auto simp: list_all_iff dest: in_set_takeD in_set_dropD)

lemma groups_of_Suc:
  "groups_of s (Suc g) = groups_of s g @ [take 9 (drop (length s - Suc g * 9) s)]"
  by (simp add: groups_of_def)

lemma concat_groups_of:
  "9 * g \<le> length s \<Longrightarrow> concat (rev (groups_of s g)) = drop (length s - 9 * g) s"
proof (induction g)
  case 0
  show ?case by (simp add: groups_of_def)
next
  case (Suc g)
  let ?k = "length s - Suc g * 9"
  have k: "?k + 9 = length s - 9 * g"
    using Suc.prems by simp
  have "concat (rev (groups_of s (Suc g))) = take 9 (drop ?k s) @ drop (length s - 9 * g) s"
    using Suc by (simp add: groups_of_Suc)
  also have "drop (length s - 9 * g) s = drop 9 (drop ?k s)"
    unfolding k [symmetric] by (simp add: add.commute)
  also have "take 9 (drop ?k s) @ drop 9 (drop ?k s) = drop ?k s"
    by (rule append_take_drop_id)
  finally show ?case
    by (simp add: mult.commute)
qed

lemma groups_of_member:
  assumes "w \<in> set (groups_of s g)" "9 * g \<le> length s" "list_all is_digit s"
  shows "length w = 9" "list_all is_digit w"
proof -
  obtain i where i: "1 \<le> i" "i \<le> g" "w = take 9 (drop (length s - i * 9) s)"
    using assms(1) by (auto simp: groups_of_def)
  have "i * 9 \<le> g * 9"
    using i(2) by simp
  then have "9 \<le> length s - (length s - i * 9)"
    using assms(2) i(1) by simp
  then show "length w = 9"
    by (simp add: i(3))
  show "list_all is_digit w"
    unfolding i(3) by (rule list_all_take_drop [OF assms(3)])
qed

lemma UInt_of_string_groups:
  "UInt_of_string s =
     (case those (map stoi (groups_of s (length s div 9)
                    @ (if length s mod 9 \<noteq> 0 then [take (length s mod 9) s] else []))) of
        None \<Rightarrow> None
      | Some digits \<Rightarrow> uint_normalize digits)"
  by (simp add: UInt_of_string_def groups_of_def WIDTH_def Let_def comp_def)

lemma BASE_power: "BASE = 10 ^ 9"
  by (simp add: BASE_def)

text \<open>
  Claim C6. For a decimal string without leading zeros the constructor returns a value
  that satisfies the invariant, and the output of that value is the string again.
\<close>

theorem decimal_round_trip:
  assumes "valid_decimal s"
  shows "\<exists>u. UInt_of_string s = Some u \<and> uint_inv u \<and> uint_format u = Some s"
proof -
  let ?n = "length s"
  let ?g = "?n div 9"
  let ?m = "?n mod 9"
  let ?G = "groups_of s ?g"
  let ?T = "if ?m \<noteq> 0 then [take ?m s] else []"
  define GS where "GS = ?G @ ?T"
  define ds where "ds = map dec_val GS"
  have s: "s \<noteq> []" "list_all is_digit s" "s = ''0'' \<or> hd s \<noteq> CHR ''0''"
    using assms by (simp_all add: valid_decimal_def)
  have g9: "9 * ?g \<le> ?n"
    by simp
  have G: "length w = 9 \<and> list_all is_digit w" if "w \<in> set ?G" for w
    using groups_of_member [OF that g9 s(2)] by simp
  have GS: "w \<noteq> [] \<and> length w \<le> 9 \<and> list_all is_digit w" if "w \<in> set GS" for w
  proof (cases "w \<in> set ?G")
    case True
    then show ?thesis
      using G [of w] by auto
  next
    case False
    with that have w: "?m \<noteq> 0" "w = take ?m s"
      by (auto simp: GS_def split: if_splits)
    have "list_all is_digit (take ?m (drop 0 s))"
      by (rule list_all_take_drop [OF s(2)])
    then have d: "list_all is_digit w"
      by (simp add: w(2))
    have "length (take ?m s) \<le> ?m"
      by simp
    also have "?m \<le> 9"
      using mod_less_divisor [of 9 ?n] by linarith
    finally have l: "length w \<le> 9"
      by (simp only: w(2))
    have "w \<noteq> []"
      using w s(1) by simp
    then show ?thesis
      using d l by blast
  qed
  have ne: "GS \<noteq> []"
  proof (cases "?m = 0")
    case True
    then have "0 < ?g"
      using s(1) by (cases "?g") auto
    then show ?thesis
      by (simp add: GS_def groups_of_def)
  next
    case False
    then show ?thesis by (simp add: GS_def)
  qed
  have lastin: "last GS \<in> set GS"
    by (rule last_in_set [OF ne])
  have lasthd: "hd (last GS) = hd s"
  proof (cases "?m = 0")
    case False
    then show ?thesis
      using s(1) by (simp add: GS_def hd_take)
  next
    case True
    then have g: "0 < ?g" "?n = ?g * 9"
      using s(1) by (cases "?g"; auto)+
    then obtain g' where g': "?g = Suc g'"
      by (cases "?g") auto
    have "last GS = take 9 (drop (?n - ?g * 9) s)"
      using True by (simp add: GS_def g' groups_of_Suc)
    also have "\<dots> = take 9 s"
      using g(2) by simp
    finally show ?thesis
      using s(1) by (simp add: hd_take)
  qed
  have single: "GS = [''0'']" if "s = ''0''"
    using that by (simp add: GS_def groups_of_def)
  have top: "hd (last GS) \<noteq> CHR ''0'' \<or> last GS = ''0''"
  proof (cases "s = ''0''")
    case True
    then show ?thesis
      by (simp add: single)
  next
    case False
    then show ?thesis
      using s(3) lasthd by simp
  qed
  have stoi: "stoi w = Some (dec_val w)" if "w \<in> set GS" for w
    using GS [OF that] by (intro stoi_digits) simp_all
  have "those (map stoi GS) = Some ds"
    unfolding ds_def by (rule those_map_Some [OF stoi])
  then have parse: "UInt_of_string s = uint_normalize ds"
    unfolding UInt_of_string_groups GS_def [symmetric] by simp
  have dig: "0 \<le> dec_val w \<and> dec_val w < BASE" if "w \<in> set GS" for w
  proof -
    have w: "length w \<le> 9" "list_all is_digit w"
      using GS [OF that] by simp_all
    have "(10::int) ^ length w \<le> 10 ^ 9"
      using w(1) by (intro power_increasing) simp_all
    then show ?thesis
      using dec_val_bounds [OF w(2)] by (simp add: BASE_power)
  qed
  have ok: "digits_ok ds"
    using dig by (simp add: ds_def digits_ok_def list_all_iff)
  have dsne: "ds \<noteq> []"
    using ne by (simp add: ds_def)
  have lastds: "last ds = dec_val (last GS)"
    using ne by (simp add: ds_def last_map)
  have nz: "last ds \<noteq> 0" if "1 < length ds"
  proof (cases "s = ''0''")
    case True
    with that show ?thesis
      by (simp add: ds_def single)
  next
    case False
    then have "hd (last GS) \<noteq> CHR ''0''"
      using s(3) lasthd by simp
    then have "0 < dec_val (last GS)"
      using GS [OF lastin] by (intro dec_val_pos) simp_all
    then show ?thesis
      by (simp add: lastds)
  qed
  have inv: "uint_inv ds"
    using dsne ok nz by (simp add: uint_inv_def)
  have f1: "show_int (dec_val (last GS)) = last GS"
    using GS [OF lastin] top by (intro show_int_dec_val) simp_all
  have f9: "setw0 WIDTH (show_int (dec_val w)) = w" if "w \<in> set (butlast GS)" for w
  proof -
    have "w \<in> set ?G"
      using that by (auto simp: GS_def split: if_splits dest: in_set_butlastD)
    then have w: "length w = 9" "list_all is_digit w"
      using G [of w] by simp_all
    then have "w \<noteq> []" by auto
    then have "setw0 (length w) (show_digits (dec_val w)) = w"
      using w(2) by (rule setw0_dec_val)
    moreover have "0 \<le> dec_val w"
      using dec_val_bounds [OF w(2)] by simp
    ultimately show ?thesis
      by (simp add: show_int_def WIDTH_def w(1))
  qed
  have "map (\<lambda>d. setw0 WIDTH (show_int d)) (rev (butlast ds))
      = map (\<lambda>w. setw0 WIDTH (show_int (dec_val w))) (rev (butlast GS))"
    by (simp add: ds_def map_butlast [symmetric] rev_map comp_def)
  also have "\<dots> = rev (butlast GS)"
    using f9 by (intro map_idI) simp
  finally have body: "concat (map (\<lambda>d. setw0 WIDTH (show_int d)) (rev (butlast ds)))
      = concat (rev (butlast GS))"
    by simp
  have "last GS @ concat (rev (butlast GS)) = concat (rev (butlast GS @ [last GS]))"
    by simp
  also have "butlast GS @ [last GS] = GS"
    using ne by (rule append_butlast_last_id)
  also have "concat (rev GS) = concat (rev ?T) @ concat (rev ?G)"
    by (simp add: GS_def)
  also have "concat (rev ?G) = drop (?n - 9 * ?g) s"
    by (rule concat_groups_of [OF g9])
  also have "?n - 9 * ?g = ?m"
    by (simp add: minus_mult_div_eq_mod)
  also have "concat (rev ?T) @ drop ?m s = s"
    by simp
  finally have whole: "last GS @ concat (rev (butlast GS)) = s" .
  have "uint_format ds = Some s"
    using dsne whole unfolding uint_format_def body lastds f1 by simp
  then show ?thesis
    using inv by (simp add: parse normalize_inv [OF inv])
qed

theorem decimal_round_trip_witness:
  "valid_decimal ''1000000000000000000''
     \<and> (\<exists>u. UInt_of_string ''1000000000000000000'' = Some u \<and> uint_inv u
            \<and> uint_format u = Some ''1000000000000000000'')"
proof -
  have v: "valid_decimal ''1000000000000000000''"
    by (simp add: valid_decimal_def is_digit_def)
  show ?thesis
    using v decimal_round_trip [OF v] by simp
qed

section \<open>The representation invariant\<close>

lemma add_long_inv_long: "length b \<noteq> 1 \<Longrightarrow> add_long a b = Some u \<Longrightarrow> uint_inv u"
  by (simp add: add_long.simps normalize_Some(2))

lemma add_short_inv: "add_short a num = Some u \<Longrightarrow> uint_inv u"
proof (cases "BASE \<le> num")
  case True
  assume h: "add_short a num = Some u"
  then obtain other where o: "UInt_of_int num = Some other" "add_long a other = Some u"
    using True by (auto simp: add_short.simps split: if_splits option.splits)
  have "length other \<noteq> 1"
    using UInt_of_int_long [OF o(1) True] by simp
  then show ?thesis
    using o(2) by (rule add_long_inv_long)
next
  case False
  assume "add_short a num = Some u"
  then show ?thesis
    using False by (auto simp: add_short.simps normalize_Some(2) split: if_splits)
qed

lemma add_long_inv: "add_long a b = Some u \<Longrightarrow> uint_inv u"
proof (cases "length b = 1")
  case True
  assume "add_long a b = Some u"
  then have "add_short a (b ! 0) = Some u"
    using True by (simp add: add_long.simps)
  then show ?thesis
    by (rule add_short_inv)
next
  case False
  assume "add_long a b = Some u"
  then show ?thesis
    by (rule add_long_inv_long [OF False])
qed

lemma sub_long_inv_long: "length b \<noteq> 1 \<Longrightarrow> sub_long a b = Some u \<Longrightarrow> uint_inv u"
  by (auto simp: sub_long.simps normalize_Some(2) split: if_splits prod.splits)

lemma sub_short_inv: "sub_short a num = Some u \<Longrightarrow> uint_inv u"
proof (cases "BASE \<le> num")
  case True
  assume h: "sub_short a num = Some u"
  then obtain other where o: "UInt_of_int num = Some other" "sub_long a other = Some u"
    using True by (auto simp: sub_short.simps split: if_splits option.splits)
  have "length other \<noteq> 1"
    using UInt_of_int_long [OF o(1) True] by simp
  then show ?thesis
    using o(2) by (rule sub_long_inv_long)
next
  case False
  assume "sub_short a num = Some u"
  then show ?thesis
    using False
    by (auto simp: sub_short.simps normalize_Some(2) split: if_splits prod.splits)
qed

lemma sub_long_inv: "sub_long a b = Some u \<Longrightarrow> uint_inv u"
proof (cases "length b = 1")
  case True
  assume "sub_long a b = Some u"
  then have "sub_short a (b ! 0) = Some u"
    using True by (simp add: sub_long.simps)
  then show ?thesis
    by (rule sub_short_inv)
next
  case False
  assume "sub_long a b = Some u"
  then show ?thesis
    by (rule sub_long_inv_long [OF False])
qed

lemma mult_inv_long:
  assumes "length b \<noteq> 1"
  shows "slow_mult env a b = Some u \<Longrightarrow> uint_inv u"
    and "fast_mult env a b = Some u \<Longrightarrow> uint_inv u"
    and "mult env a b = Some u \<Longrightarrow> uint_inv u"
proof -
  show s: "slow_mult env a b = Some u \<Longrightarrow> uint_inv u" for u
    using assms by (simp add: slow_mult.simps UInt_of_vector_def normalize_Some(2))
  show f: "fast_mult env a b = Some u \<Longrightarrow> uint_inv u" for u
    using assms
    by (auto simp: fast_mult.simps UInt_of_vector_def normalize_Some(2) split: option.splits)
  show "mult env a b = Some u \<Longrightarrow> uint_inv u"
    using s f by (auto simp: mult.simps Let_def split: option.splits if_splits)
qed

lemma mul_short_inv: "mul_short env a num = Some u \<Longrightarrow> uint_inv u"
proof (cases "BASE \<le> num")
  case True
  assume h: "mul_short env a num = Some u"
  then obtain other where o: "UInt_of_int num = Some other" "mult env a other = Some u"
    using True by (auto simp: mul_short.simps split: if_splits option.splits)
  have "length other \<noteq> 1"
    using UInt_of_int_long [OF o(1) True] by simp
  then show ?thesis
    using o(2) by (rule mult_inv_long(3))
next
  case False
  assume "mul_short env a num = Some u"
  then show ?thesis
    using False by (auto simp: mul_short.simps normalize_Some(2) split: if_splits)
qed

lemma slow_mult_inv: "slow_mult env a b = Some u \<Longrightarrow> uint_inv u"
proof (cases "length b = 1")
  case True
  assume "slow_mult env a b = Some u"
  then have "mul_short env a (b ! 0) = Some u"
    using True by (simp add: slow_mult.simps)
  then show ?thesis
    by (rule mul_short_inv)
next
  case False
  assume "slow_mult env a b = Some u"
  then show ?thesis
    by (rule mult_inv_long(1) [OF False])
qed

lemma fast_mult_inv: "fast_mult env a b = Some u \<Longrightarrow> uint_inv u"
proof (cases "length b = 1")
  case True
  assume "fast_mult env a b = Some u"
  then have "mul_short env a (b ! 0) = Some u"
    using True by (simp add: fast_mult.simps)
  then show ?thesis
    by (rule mul_short_inv)
next
  case False
  assume "fast_mult env a b = Some u"
  then show ?thesis
    by (rule mult_inv_long(2) [OF False])
qed

lemma mult_inv: "mult env a b = Some u \<Longrightarrow> uint_inv u"
  using slow_mult_inv fast_mult_inv
  by (auto simp: mult.simps Let_def split: option.splits if_splits)

lemma div_mod_inv_long:
  "length b \<noteq> 1 \<Longrightarrow> div_mod env a b = Some (q, r) \<Longrightarrow> uint_inv q"
  by (auto simp: div_mod.simps Let_def normalize_Some(2) split: if_splits option.splits)

lemma div_short_inv: "div_short env a num = Some q \<Longrightarrow> uint_inv q"
proof (cases "BASE \<le> num")
  case True
  assume h: "div_short env a num = Some q"
  then obtain other r where o: "UInt_of_int num = Some other" "div_mod env a other = Some (q, r)"
    using True by (auto simp: div_short.simps split: if_splits option.splits)
  have "length other \<noteq> 1"
    using UInt_of_int_long [OF o(1) True] by simp
  then show ?thesis
    using o(2) by (rule div_mod_inv_long)
next
  case False
  assume "div_short env a num = Some q"
  then show ?thesis
    using False by (auto simp: div_short.simps normalize_Some(2) split: if_splits)
qed

lemma div_mod_inv: "div_mod env a b = Some (q, r) \<Longrightarrow> uint_inv q \<and> uint_inv r"
proof (cases "length b = 1")
  case True
  assume "div_mod env a b = Some (q, r)"
  then show ?thesis
    using True
    by (auto simp: div_mod.simps div_short_inv UInt_of_int_Some(2) split: option.splits)
next
  case False
  assume h: "div_mod env a b = Some (q, r)"
  have "uint_inv q"
    by (rule div_mod_inv_long [OF False h])
  moreover have "uint_inv r"
    using h False
    by (auto simp: div_mod.simps Let_def div_short_inv split: if_splits option.splits)
  ultimately show ?thesis by simp
qed

lemma pow_plain_loop_inv:
  "uint_inv res \<Longrightarrow> pow_plain_loop env res a n = Some u \<Longrightarrow> uint_inv u"
proof (induction env res a n rule: pow_plain_loop.induct)
  case (1 env res a n)
  show ?case
  proof (cases "0 < n")
    case False
    then show ?thesis
      using "1.prems" by (simp add: pow_plain_loop.simps [of env res a n])
  next
    case True
    obtain res' a' where s: "(if cmod n 2 \<noteq> 0 then mult env res a else Some res) = Some res'"
      "mult env a a = Some a'" "pow_plain_loop env res' a' (cdiv n 2) = Some u"
      using True "1.prems"(2)
      by (simp add: pow_plain_loop.simps [of env res a n] split: option.splits)
    have "uint_inv res'"
      using s(1) "1.prems"(1) mult_inv by (auto split: if_splits)
    then show ?thesis
      using "1.IH" [OF True s(1,2)] s(3) by simp
  qed
qed

lemma pow_mod_loop_inv:
  "uint_inv res \<Longrightarrow> pow_mod_loop env res a n m = Some u \<Longrightarrow> uint_inv u"
proof (induction env res a n m rule: pow_mod_loop.induct)
  case (1 env res a n m)
  show ?case
  proof (cases "0 < n")
    case False
    then show ?thesis
      using "1.prems" by (simp add: pow_mod_loop.simps [of env res a n m])
  next
    case True
    obtain res' a' mm a'' where s:
      "(if cmod n 2 \<noteq> 0 then mult env res a else Some res) = Some res'"
      "mult env a a = Some a'" "UInt_of_int m = Some mm" "uint_mod env a' mm = Some a''"
      "pow_mod_loop env res' a'' (cdiv n 2) m = Some u"
      using True "1.prems"(2)
      by (simp add: pow_mod_loop.simps [of env res a n m] split: option.splits)
    have "uint_inv res'"
      using s(1) "1.prems"(1) mult_inv by (auto split: if_splits)
    then show ?thesis
      using "1.IH" [OF True s(1,2,3,4)] s(5) by simp
  qed
qed

lemma pow_inv: "pow env a n m = Some u \<Longrightarrow> uint_inv u"
  using pow_plain_loop_inv [OF uint_inv_one] pow_mod_loop_inv [OF uint_inv_one]
  by (auto simp: pow_def UInt_of_int_1 split: if_splits)

lemma uint_gcd_inv_imp:
  assumes eq: "uint_gcd env a b = Some g"
  shows "uint_inv a \<longrightarrow> uint_inv b \<longrightarrow> uint_inv g"
proof (rule uint_gcd.raw_induct
    [where P = "\<lambda>env a b g. uint_inv a \<longrightarrow> uint_inv b \<longrightarrow> uint_inv g", OF _ eq])
  fix self :: "float_env \<Rightarrow> UInt \<Rightarrow> UInt \<Rightarrow> UInt option"
  fix env a b g
  assume IH: "\<And>e x y z. self e x y = Some z \<Longrightarrow> uint_inv x \<longrightarrow> uint_inv y \<longrightarrow> uint_inv z"
    and body: "UInt_of_int 0 \<bind>
      (\<lambda>zero. if uint_neq b zero then uint_mod env a b \<bind> self env b else Some a) = Some g"
  show "uint_inv a \<longrightarrow> uint_inv b \<longrightarrow> uint_inv g"
  proof (cases "uint_neq b [0]")
    case False
    then show ?thesis
      using body by (simp add: UInt_of_int_0)
  next
    case True
    then obtain r where r: "uint_mod env a b = Some r" "self env b r = Some g"
      using body by (auto simp: UInt_of_int_0 bind_eq_Some_conv)
    have "uint_inv r"
      using r(1) div_mod_inv [of env a b] by (auto simp: uint_mod_def)
    then show ?thesis
      using IH [OF r(2)] by simp
  qed
qed

lemma uint_gcd_inv:
  "uint_gcd env a b = Some g \<Longrightarrow> uint_inv a \<Longrightarrow> uint_inv b \<Longrightarrow> uint_inv g"
  using uint_gcd_inv_imp by blast

text \<open>
  Claim C5. Every value that a constructor or an arithmetic operation returns satisfies
  the invariant: its digit vector is not empty, every digit lies in \<open>[0, BASE)\<close>, and the most
  significant digit is zero only in the single digit \<open>0\<close>, which is the representation of
  zero. The operations may abort instead of returning (a failed assertion); nothing is
  assumed about their operands, except for \<open>gcd\<close>, which returns one of its operands when
  the other is zero.
\<close>

theorem representation_invariant:
  "(UInt_of_int n = Some u \<longrightarrow> uint_inv u)
     \<and> (UInt_of_string s = Some u \<longrightarrow> uint_inv u)
     \<and> (UInt_of_vector ds = Some u \<longrightarrow> uint_inv u)
     \<and> UInt_of_int 0 = Some [0]
     \<and> (uint_inv u \<and> dval u = 0 \<longrightarrow> u = [0])
     \<and> (add_short a num = Some u \<longrightarrow> uint_inv u)
     \<and> (add_long a b = Some u \<longrightarrow> uint_inv u)
     \<and> (sub_short a num = Some u \<longrightarrow> uint_inv u)
     \<and> (sub_long a b = Some u \<longrightarrow> uint_inv u)
     \<and> (mul_short env a num = Some u \<longrightarrow> uint_inv u)
     \<and> (slow_mult env a b = Some u \<longrightarrow> uint_inv u)
     \<and> (fast_mult env a b = Some u \<longrightarrow> uint_inv u)
     \<and> (mult env a b = Some u \<longrightarrow> uint_inv u)
     \<and> (div_short env a num = Some u \<longrightarrow> uint_inv u)
     \<and> (div_mod env a b = Some (q, r) \<longrightarrow> uint_inv q \<and> uint_inv r)
     \<and> (pow env a n m = Some u \<longrightarrow> uint_inv u)
     \<and> (uint_inv a \<and> uint_inv b \<and> uint_gcd env a b = Some u \<longrightarrow> uint_inv u)"
proof -
  have str: "UInt_of_string s = Some u \<Longrightarrow> uint_inv u"
    by (auto simp: UInt_of_string_groups normalize_Some(2) split: option.splits)
  have zero: "uint_inv u \<Longrightarrow> dval u = 0 \<Longrightarrow> u = [0]"
    using uint_inv_inject [OF _ uint_inv_zero, of u] by simp
  show ?thesis
    using UInt_of_int_Some(2) [of n u] str normalize_Some(2) [of ds u] UInt_of_int_0 zero
      add_short_inv [of a num u] add_long_inv [of a b u] sub_short_inv [of a num u]
      sub_long_inv [of a b u] mul_short_inv [of env a num u] slow_mult_inv [of env a b u]
      fast_mult_inv [of env a b u] mult_inv [of env a b u] div_short_inv [of env a num u]
      div_mod_inv [of env a b q r] pow_inv [of env a n m u] uint_gcd_inv [of env a b u]
    by (simp add: UInt_of_vector_def)
qed

theorem representation_invariant_witness:
  "UInt_of_int 1000000000 = Some [0, 1] \<and> UInt_of_string ''1000000000'' = Some [0, 1]
     \<and> UInt_of_vector [0, 1, 0] = Some [0, 1] \<and> add_short [999999999] 1 = Some [0, 1]
     \<and> sub_long [1, 1, 1] [1, 0, 1] = Some [0, 1]
     \<and> mul_short exact_env [500000000] 2 = Some [0, 1]
     \<and> div_mod exact_env [1, 2] [2] = Some ([0, 1], [1])
     \<and> uint_inv [0, 1] \<and> uint_inv [1]"
proof -
  have e: "UInt_of_int 1000000000 = Some [0, 1]" "UInt_of_string ''1000000000'' = Some [0, 1]"
    "UInt_of_vector [0, 1, 0] = Some [0, 1]" "add_short [999999999] 1 = Some [0, 1]"
    "sub_long [1, 1, 1] [1, 0, 1] = Some [0, 1]"
    "mul_short exact_env [500000000] 2 = Some [0, 1]"
    "div_mod exact_env [1, 2] [2] = Some ([0, 1], [1])"
    by code_simp+
  have "uint_inv [0, 1]"
    using e(1) representation_invariant [where n = 1000000000 and u = "[0, 1]"] by blast
  moreover have "uint_inv [0, 1] \<and> uint_inv [1]"
    using e(7) representation_invariant [where a = "[1, 2]" and b = "[2]" and env = exact_env
        and q = "[0, 1]" and r = "[1]"] by blast
  ultimately show ?thesis
    using e by simp
qed

section \<open>The two multiplications\<close>

text \<open>
  The schoolbook and the transform multiplication share the path for a right operand of
  one digit. For longer operands they agree if the transform pipeline, which works in
  floating point, produces the digits of the exact product.
\<close>

lemma mult_paths_single: "length b = 1 \<Longrightarrow> slow_mult env a b = fast_mult env a b"
  by (simp add: slow_mult.simps fast_mult.simps)

lemma mult_paths_agree:
  assumes "uint_inv a" "uint_inv b" "spectral_digits env a b = Some res" "res \<noteq> []"
    "digits_ok res" "dval res = dval a * dval b"
  shows "slow_mult env a b = fast_mult env a b"
proof (cases "length b = 1")
  case True
  then show ?thesis
    by (rule mult_paths_single)
next
  case False
  obtain r where r: "slow_mult env a b = Some r" "uint_inv r" "dval r = dval a * dval b"
    using slow_mult_ok [OF assms(1,2)] by blast
  obtain r' where r': "uint_normalize res = Some r'" "uint_inv r'" "dval r' = dval res"
    using normalize_total [OF assms(4,5)] by auto
  have "fast_mult env a b = Some r'"
    using False by (simp add: fast_mult.simps assms(3) UInt_of_vector_def r'(1))
  moreover have "r = r'"
    using r(3) r'(3) assms(6) by (intro uint_inv_inject [OF r(2) r'(2)]) simp
  ultimately show ?thesis
    by (simp add: r(1))
qed

end
